theory Spec2Isabelle
  imports Complex_Main
begin

section \<open>Python values used by the multistep package\<close>

text \<open>
  The exceptions the three modules can raise. \<open>TypeError\<close> is raised by
  \<open>repeated_space\<close> on an unsupported space and by the interpreter when a
  \<open>collections.deque\<close> is indexed with a slice; \<open>ValueError\<close> by
  \<open>StepBuffers.reduce\<close> on an unknown aggregation, by NumPy on an empty reduction,
  an empty or ragged stack and a negative repeat count, by \<open>deque\<close> on a
  negative \<open>maxlen\<close>, and by \<open>spaces.Box\<close> on bounds its dtype cannot hold; \<open>AssertionError\<close> by the \<open>assert\<close> of
  \<open>MultiStep.step\<close>; \<open>NameError\<close> by the lookup of a name that is bound
  nowhere.
\<close>

datatype error =
    TypeError
  | ValueError
  | AssertionError
  | NameError string

subsection \<open>NumPy arrays\<close>

text \<open>
  An n-dimensional array is kept as its nesting along the leading axis: a scalar, or the
  sequence of its sub-arrays. The element type \<open>'a\<close> plays the part of the dtype,
  so all frames of one history share it. Floating-point elements are idealised as
  \<open>real\<close> where arithmetic is done on them.
\<close>

datatype 'a nd = Scalar 'a | Stack "'a nd list"

fun shape :: "'a nd \<Rightarrow> nat list" where
  "shape (Scalar x) = []"
| "shape (Stack []) = [0]"
| "shape (Stack (f # fs)) = Suc (length fs) # shape f"

text \<open>The elements of an array in row-major order.\<close>

fun flat :: "'a nd \<Rightarrow> 'a list" where
  "flat (Scalar x) = [x]"
| "flat (Stack fs) = concat (map flat fs)"

text \<open>\<open>a[None, ...]\<close>: a new leading axis of length one.\<close>

definition expand_dims0 :: "'a nd \<Rightarrow> 'a nd" where
  "expand_dims0 a = Stack [a]"

text \<open>
  \<open>np.repeat(a, n, axis=0)\<close>: every sub-array along the leading axis is repeated
  \<open>n\<close> times in place. A negative count raises \<open>ValueError\<close>; a scalar has no
  axis 0.
\<close>

fun np_repeat0 :: "'a nd \<Rightarrow> int \<Rightarrow> error + 'a nd" where
  "np_repeat0 (Scalar x) n = Inl ValueError"
| "np_repeat0 (Stack fs) n =
     (if n < 0 then Inl ValueError
      else Inr (Stack (concat (map (replicate (nat n)) fs))))"

text \<open>
  \<open>np.stack(fs, axis=0)\<close>: needs at least one array, and all arrays of the same
  shape.
\<close>

definition np_stack :: "'a nd list \<Rightarrow> error + 'a nd" where
  "np_stack fs =
     (if fs = [] then Inl ValueError
      else if list_all (\<lambda>f. shape f = shape (hd fs)) fs then Inr (Stack fs)
      else Inl ValueError)"

text \<open>\<open>a[:1]\<close> on the leading axis.\<close>

fun np_take1 :: "'a nd \<Rightarrow> error + 'a nd" where
  "np_take1 (Scalar x) = Inl ValueError"
| "np_take1 (Stack fs) = Inr (Stack (take 1 fs))"

text \<open>
  \<open>np.concatenate([a, b], axis=0)\<close>: the shapes must agree on every axis but the
  first.
\<close>

fun np_concatenate0 :: "'a nd \<Rightarrow> 'a nd \<Rightarrow> error + 'a nd" where
  "np_concatenate0 (Stack fs) (Stack gs) =
     (if tl (shape (Stack fs)) = tl (shape (Stack gs)) then Inr (Stack (fs @ gs))
      else Inl ValueError)"
| "np_concatenate0 a b = Inl ValueError"

subsection \<open>Lists, deques and slicing\<close>

text \<open>
  \<open>xs[i:]\<close> on a Python list: a negative start counts from the end and is clamped
  at the front, a positive one is clamped at the end.
\<close>

definition py_slice_from :: "'a list \<Rightarrow> int \<Rightarrow> 'a list" where
  "py_slice_from xs i =
     (if i < 0 then drop (nat (int (length xs) + i)) xs else drop (nat i) xs)"

text \<open>
  \<open>collections.deque(maxlen=m)\<close>: appending to a full deque evicts the oldest item.
  The constructor rejects a negative \<open>maxlen\<close>.
\<close>

record 'a deque =
  maxlen :: nat
  items :: "'a list"

definition new_deque :: "int \<Rightarrow> error + 'a deque" where
  "new_deque m =
     (if m < 0 then Inl ValueError else Inr \<lparr>maxlen = nat m, items = []\<rparr>)"

definition dq_append :: "'a deque \<Rightarrow> 'a \<Rightarrow> 'a deque" where
  "dq_append d x =
     d\<lparr>items := drop (Suc (length (items d)) - maxlen d) (items d @ [x])\<rparr>"

text \<open>
  A sequence argument is a list or a deque. Both have a length; only the list can be
  sliced: \<open>deque.__getitem__\<close> takes integers only and raises \<open>TypeError\<close> on a
  slice.
\<close>

datatype 'a pyseq = PyList "'a list" | PyDeque "'a deque"

fun seq_len :: "'a pyseq \<Rightarrow> nat" where
  "seq_len (PyList xs) = length xs"
| "seq_len (PyDeque d) = length (items d)"

fun slice_from :: "'a pyseq \<Rightarrow> int \<Rightarrow> error + 'a list" where
  "slice_from (PyList xs) i = Inr (py_slice_from xs i)"
| "slice_from (PyDeque d) i = Inl TypeError"

section \<open>space\_utils.py\<close>

subsection \<open>stack\_last\<close>

text \<open>
  \<^verbatim>\<open>
  pad = max(0, n - len(arr))
  core = np.stack(arr[-n:], axis=0)
  if pad:
      pad_block = np.repeat(core[:1], pad, axis=0)
      core = np.concatenate([pad_block, core], axis=0)
  return core
  \<close>
\<close>

definition stack_last :: "'a nd pyseq \<Rightarrow> int \<Rightarrow> error + 'a nd" where
  "stack_last arr n =
     (let pad = max 0 (n - int (seq_len arr)) in
      case slice_from arr (- n) of
        Inl e \<Rightarrow> Inl e
      | Inr tail \<Rightarrow>
          (case np_stack tail of
             Inl e \<Rightarrow> Inl e
           | Inr core \<Rightarrow>
               if pad \<noteq> 0 then
                 (case np_take1 core of
                    Inl e \<Rightarrow> Inl e
                  | Inr first \<Rightarrow>
                      (case np_repeat0 first pad of
                         Inl e \<Rightarrow> Inl e
                       | Inr pad_block \<Rightarrow> np_concatenate0 pad_block core))
               else Inr core))"

subsection \<open>Spaces\<close>

text \<open>
  A gymnasium space is a \<open>Box\<close> (bound arrays and an element dtype; its shape is the
  shape of the bounds), a \<open>Dict\<close> of named sub-spaces, or a space of another kind,
  kept by the name of its class. A bound is a number, an infinity or NaN.
\<close>

datatype dtype = UInt8 | Int32 | Int64 | Float32 | Float64

datatype bound = Num real | MinusInf | PlusInf | Nan

record box =
  low :: "bound nd"
  high :: "bound nd"
  box_dtype :: dtype

definition box_shape :: "box \<Rightarrow> nat list" where
  "box_shape b = shape (low b)"

datatype space = Box box | Dict "(string \<times> space) list" | Other string

text \<open>
  The comparisons \<open>v < c\<close> and \<open>c < v\<close> of an array element with a number; every
  comparison with NaN is false.
\<close>

fun below :: "bound \<Rightarrow> real \<Rightarrow> bool" where
  "below (Num x) c = (x < c)"
| "below MinusInf c = True"
| "below PlusInf c = False"
| "below Nan c = False"

fun above :: "bound \<Rightarrow> real \<Rightarrow> bool" where
  "above (Num x) c = (c < x)"
| "above MinusInf c = False"
| "above PlusInf c = True"
| "above Nan c = False"

text \<open>
  \<open>astype(np.uint8)\<close> on one element: a number from 0 to 255 loses its fraction. Outside
  that range the conversion is the C cast, which is taken here as truncation towards
  zero modulo 256 and as 0 for an infinity or NaN.
\<close>

fun uint8_of :: "bound \<Rightarrow> nat" where
  "uint8_of (Num x) = nat ((if 0 \<le> x then \<lfloor>x\<rfloor> else \<lceil>x\<rceil>) mod 256)"
| "uint8_of v = 0"

definition astype_uint8 :: "bound nd \<Rightarrow> bound nd" where
  "astype_uint8 a = map_nd (\<lambda>v. Num (real (uint8_of v))) a"

text \<open>
  \<open>spaces.Box(low=lo, high=hi, dtype=np.uint8)\<close> on two arrays of dtype \<open>d\<close>, as the
  constructor of gymnasium 1.x does it; every failure is a \<open>ValueError\<close>:
  \<^item> the two shapes must agree;
  \<^item> \<open>_cast_low\<close>: no NaN; no \<open>-inf\<close> (an unsigned dtype has none); when \<open>d\<close> is
    not uint8, no element below the least uint8, 0; then \<open>low.astype(np.uint8)\<close>;
  \<^item> \<open>_cast_high\<close>: no NaN; no \<open>+inf\<close>; when \<open>d\<close> is not uint8, no element above
    the greatest uint8, 255; then \<open>high.astype(np.uint8)\<close>;
  \<^item> after the casts no low may be greater than its high.
\<close>

definition Box_uint8 :: "bound nd \<Rightarrow> bound nd \<Rightarrow> dtype \<Rightarrow> error + box" where
  "Box_uint8 lo hi d =
     (if shape lo \<noteq> shape hi then Inl ValueError
      else if list_ex (\<lambda>v. v = Nan) (flat lo) then Inl ValueError
      else if list_ex (\<lambda>v. v = MinusInf) (flat lo) then Inl ValueError
      else if d \<noteq> UInt8 \<and> list_ex (\<lambda>v. below v 0) (flat lo) then Inl ValueError
      else if list_ex (\<lambda>v. v = Nan) (flat hi) then Inl ValueError
      else if list_ex (\<lambda>v. v = PlusInf) (flat hi) then Inl ValueError
      else if d \<noteq> UInt8 \<and> list_ex (\<lambda>v. above v 255) (flat hi) then Inl ValueError
      else if list_ex (\<lambda>(l, h). uint8_of h < uint8_of l) (zip (flat lo) (flat hi))
        then Inl ValueError
      else Inr \<lparr>low = astype_uint8 lo, high = astype_uint8 hi, box_dtype = UInt8\<rparr>)"

text \<open>
  \<^verbatim>\<open>
  rep = np.repeat(box.low[None, ...], n, axis=0)
  return spaces.Box(low=rep, high=np.repeat(box.high[None,...], n, axis=0),
          dtype=np.uint8)
  \<close>
  \<open>np.repeat\<close> keeps the dtype of \<open>box.low\<close>, which is the dtype of the box.
\<close>

definition repeated_box :: "box \<Rightarrow> int \<Rightarrow> error + box" where
  "repeated_box b n =
     (case np_repeat0 (expand_dims0 (low b)) n of
        Inl e \<Rightarrow> Inl e
      | Inr rep \<Rightarrow>
          (case np_repeat0 (expand_dims0 (high b)) n of
             Inl e \<Rightarrow> Inl e
           | Inr rep_high \<Rightarrow> Box_uint8 rep rep_high (box_dtype b)))"

text \<open>
  \<^verbatim>\<open>
  if isinstance(space, spaces.Box):
      return repeated_box(space, n)
  if isinstance(space, spaces.Dict):
      return spaces.Dict({k: repeated_space(v,n) for k, v in space.items()})
  raise TypeError(f"Unsupported space {type(space)}")
  \<close>
  The comprehension stops at the first sub-space that raises.
\<close>

fun repeated_space :: "space \<Rightarrow> int \<Rightarrow> error + space"
  and repeated_items :: "(string \<times> space) list \<Rightarrow> int \<Rightarrow> error + (string \<times> space) list"
where
  "repeated_space (Box b) n =
     (case repeated_box b n of Inl e \<Rightarrow> Inl e | Inr b' \<Rightarrow> Inr (Box b'))"
| "repeated_space (Dict kvs) n =
     (case repeated_items kvs n of Inl e \<Rightarrow> Inl e | Inr kvs' \<Rightarrow> Inr (Dict kvs'))"
| "repeated_space (Other kind) n = Inl TypeError"
| "repeated_items [] n = Inr []"
| "repeated_items ((k, v) # kvs) n =
     (case repeated_space v n of
        Inl e \<Rightarrow> Inl e
      | Inr v' \<Rightarrow>
          (case repeated_items kvs n of
             Inl e \<Rightarrow> Inl e
           | Inr kvs' \<Rightarrow> Inr ((k, v') # kvs')))"

section \<open>buffers.py\<close>

text \<open>
  The buffers of one episode. \<open>obs\<close> and every window of \<open>infos\<close> are deques of
  capacity \<open>n_obs + 1\<close>; \<open>rewards\<close> and \<open>dones\<close> are plain lists. The dictionary
  \<open>infos\<close> is kept in insertion order. The field \<open>n_obs\<close> of the class is
  \<open>sb_n_obs\<close> here.
\<close>

record ('o, 'v) StepBuffers =
  sb_n_obs :: int
  obs :: "'o deque"
  rewards :: "real list"
  dones :: "bool list"
  infos :: "(string \<times> 'v deque) list"

text \<open>The generated \<open>__init__\<close> followed by \<open>__post_init__\<close>.\<close>

definition StepBuffers_init :: "int \<Rightarrow> error + ('o, 'v) StepBuffers" where
  "StepBuffers_init n =
     (case new_deque (n + 1) of
        Inl e \<Rightarrow> Inl e
      | Inr d \<Rightarrow> Inr \<lparr>sb_n_obs = n, obs = d, rewards = [], dones = [], infos = []\<rparr>)"

definition add_obs :: "('o, 'v) StepBuffers \<Rightarrow> 'o \<Rightarrow> ('o, 'v) StepBuffers" where
  "add_obs b x = b\<lparr>obs := dq_append (obs b) x\<rparr>"

definition add_reward :: "('o, 'v) StepBuffers \<Rightarrow> real \<Rightarrow> ('o, 'v) StepBuffers" where
  "add_reward b r = b\<lparr>rewards := rewards b @ [r]\<rparr>"

definition add_done :: "('o, 'v) StepBuffers \<Rightarrow> bool \<Rightarrow> ('o, 'v) StepBuffers" where
  "add_done b d = b\<lparr>dones := dones b @ [d]\<rparr>"

text \<open>
  \<open>infos.setdefault(k, deque(maxlen=n_obs + 1)).append(v)\<close>: the window of a key seen
  for the first time is created at the end of the dictionary. The deque constructor is
  given the \<open>maxlen\<close> it accepted in \<open>__post_init__\<close>, as \<open>n_obs\<close> is assigned
  nowhere else.
\<close>

fun setdefault_append :: "(string \<times> 'v deque) list \<Rightarrow> string \<Rightarrow> nat \<Rightarrow> 'v \<Rightarrow> (string \<times> 'v deque) list" where
  "setdefault_append [] k m v = [(k, dq_append \<lparr>maxlen = m, items = []\<rparr> v)]"
| "setdefault_append ((k', d) # kds) k m v =
     (if k' = k then (k', dq_append d v) # kds
      else (k', d) # setdefault_append kds k m v)"

definition add_info :: "('o, 'v) StepBuffers \<Rightarrow> (string \<times> 'v) list \<Rightarrow> ('o, 'v) StepBuffers" where
  "add_info b info =
     fold (\<lambda>(k, v) b'. b'\<lparr>infos := setdefault_append (infos b') k (nat (sb_n_obs b' + 1)) v\<rparr>)
       info b"

subsection \<open>reduce\<close>

text \<open>
  The result of a NumPy reduction converted by \<open>float\<close>: a number, or the NaN that
  \<open>np.mean\<close> gives on an empty list.
\<close>

datatype pyfloat = Float real | NaN

text \<open>
  \<open>np.max\<close> and \<open>np.min\<close> raise \<open>ValueError\<close> on an empty list; \<open>np.sum\<close>
  gives 0 and \<open>np.mean\<close> NaN there.
\<close>

fun np_max :: "'a::linorder list \<Rightarrow> error + 'a" where
  "np_max [] = Inl ValueError"
| "np_max (x # xs) = Inr (fold max xs x)"

fun np_min :: "'a::linorder list \<Rightarrow> error + 'a" where
  "np_min [] = Inl ValueError"
| "np_min (x # xs) = Inr (fold min xs x)"

definition np_sum :: "real list \<Rightarrow> real" where
  "np_sum xs = fold (\<lambda>x acc. acc + x) xs 0"

definition np_mean :: "real list \<Rightarrow> pyfloat" where
  "np_mean xs = (if xs = [] then NaN else Float (np_sum xs / real (length xs)))"

definition agg_fn_map :: "(string \<times> (real list \<Rightarrow> error + pyfloat)) list" where
  "agg_fn_map =
     [(''max'', \<lambda>xs. map_sum id Float (np_max xs)),
      (''min'', \<lambda>xs. map_sum id Float (np_min xs)),
      (''mean'', \<lambda>xs. Inr (np_mean xs)),
      (''sum'', \<lambda>xs. Inr (Float (np_sum xs)))]"

text \<open>
  \<^verbatim>\<open>
  if agg not in agg_fn_map:
      raise ValueError(f"Unsupported aggregation `{agg}`")
  reward: float = float(agg_fn_map[agg](self.rewards))
  done: bool = bool(np.max(self.dones))
  return reward, done
  \<close>
\<close>

definition reduce :: "('o, 'v) StepBuffers \<Rightarrow> string \<Rightarrow> error + (pyfloat \<times> bool)" where
  "reduce b agg =
     (case map_of agg_fn_map agg of
        None \<Rightarrow> Inl ValueError
      | Some agg_fn \<Rightarrow>
          (case agg_fn (rewards b) of
             Inl e \<Rightarrow> Inl e
           | Inr reward \<Rightarrow>
               (case np_max (dones b) of
                  Inl e \<Rightarrow> Inl e
                | Inr done \<Rightarrow> Inr (reward, done))))"

section \<open>wrapper.py\<close>

text \<open>
  The wrapped environment: a hidden state with its \<open>reset\<close> and \<open>step\<close> methods
  and its two spaces. \<open>step\<close> returns
  \<open>(observation, reward, terminated, truncated, info)\<close>. The counter
  \<open>step_calls\<close> is instrumentation: it counts the calls of \<open>step\<close> the wrapper
  has made.
\<close>

record ('s, 'a, 'k, 'x, 'y) gym_env =
  env_state :: 's
  env_reset :: "'s \<Rightarrow> 'k \<Rightarrow> 'x nd \<times> 's"
  env_step :: "'s \<Rightarrow> 'a \<Rightarrow> ('x nd \<times> real \<times> bool \<times> bool \<times> (string \<times> 'y nd) list) \<times> 's"
  env_observation_space :: space
  env_action_space :: space
  step_calls :: nat

definition call_reset :: "('s, 'a, 'k, 'x, 'y) gym_env \<Rightarrow> 'k \<Rightarrow> 'x nd \<times> ('s, 'a, 'k, 'x, 'y) gym_env" where
  "call_reset e kw =
     (let (x, s') = env_reset e (env_state e) kw in (x, e\<lparr>env_state := s'\<rparr>))"

definition call_step :: "('s, 'a, 'k, 'x, 'y) gym_env \<Rightarrow> 'a \<Rightarrow>
    ('x nd \<times> real \<times> bool \<times> bool \<times> (string \<times> 'y nd) list) \<times> ('s, 'a, 'k, 'x, 'y) gym_env" where
  "call_step e a =
     (let (r, s') = env_step e (env_state e) a
      in (r, e\<lparr>env_state := s', step_calls := Suc (step_calls e)\<rparr>))"

text \<open>
  The attributes of a \<open>MultiStep\<close> instance; \<open>_obs_space\<close> and \<open>_act_space\<close> are
  \<open>obs_space\<close> and \<open>act_space\<close>.
\<close>

record ('s, 'a, 'k, 'x, 'y) MultiStep =
  env :: "('s, 'a, 'k, 'x, 'y) gym_env"
  n_obs :: int
  n_action :: int
  reward_reduce :: string
  max_ep :: "int option"
  obs_space :: space
  act_space :: space
  buf :: "('x nd, 'y nd) StepBuffers"

definition MultiStep_init :: "('s, 'a, 'k, 'x, 'y) gym_env \<Rightarrow> int \<Rightarrow> int \<Rightarrow> string \<Rightarrow> int option \<Rightarrow>
    error + ('s, 'a, 'k, 'x, 'y) MultiStep" where
  "MultiStep_init e n_obs' n_action' reward_reduce' max_episode_steps =
     (case repeated_space (env_observation_space e) n_obs' of
        Inl err \<Rightarrow> Inl err
      | Inr os \<Rightarrow>
          (case repeated_space (env_action_space e) n_action' of
             Inl err \<Rightarrow> Inl err
           | Inr as \<Rightarrow>
               (case StepBuffers_init n_obs' of
                  Inl err \<Rightarrow> Inl err
                | Inr b \<Rightarrow>
                    Inr \<lparr>env = e, n_obs = n_obs', n_action = n_action',
                         reward_reduce = reward_reduce', max_ep = max_episode_steps,
                         obs_space = os, act_space = as, buf = b\<rparr>)))"

text \<open>The property \<open>observation_space\<close> returns \<open>self._obs_space\<close>.\<close>

definition observation_space :: "('s, 'a, 'k, 'x, 'y) MultiStep \<Rightarrow> error + space" where
  "observation_space w = Inr (obs_space w)"

text \<open>
  The property \<open>action_space\<close> is \<^verbatim>\<open>return self_act_space\<close>: one identifier,
  not an attribute of \<open>self\<close>. It is no local of the method, no global of the module
  (whose names are those it imports and \<open>MultiStep\<close>) and no builtin, so its lookup
  raises \<open>NameError\<close>.
\<close>

definition action_space :: "('s, 'a, 'k, 'x, 'y) MultiStep \<Rightarrow> error + space" where
  "action_space w = Inl (NameError ''self_act_space'')"

text \<open>
  \<^verbatim>\<open>
  head = self.buf.obs[-self.n_obs:]
  return stack_last(list(head), self.n_obs)
  \<close>
  \<open>self.buf.obs\<close> is the deque.
\<close>

definition stack_obs :: "('s, 'a, 'k, 'x, 'y) MultiStep \<Rightarrow> error + 'x nd" where
  "stack_obs w =
     (case slice_from (PyDeque (obs (buf w))) (- n_obs w) of
        Inl e \<Rightarrow> Inl e
      | Inr head \<Rightarrow> stack_last (PyList head) (n_obs w))"

text \<open>
  \<^verbatim>\<open>
  o = self.env.reset(**kw)
  self.buf = StepBuffers(self.n_obs)
  self.buf.add_obs(o)
  return self._stack_obs()
  \<close>
  An operation returns the instance as the call leaves it, and the value returned or
  the exception raised.
\<close>

definition reset :: "('s, 'a, 'k, 'x, 'y) MultiStep \<Rightarrow> 'k \<Rightarrow>
    ('s, 'a, 'k, 'x, 'y) MultiStep \<times> (error + 'x nd)" where
  "reset w kw =
     (let (x, e') = call_reset (env w) kw;
          w1 = w\<lparr>env := e'\<rparr>
      in case StepBuffers_init (n_obs w1) of
           Inl err \<Rightarrow> (w1, Inl err)
         | Inr b \<Rightarrow>
             (let w2 = w1\<lparr>buf := add_obs b x\<rparr> in (w2, stack_obs w2)))"

text \<open>
  One pass of the body of the \<open>for\<close> loop after its \<open>break\<close> test:
  \<^verbatim>\<open>
  obs, rew, terminated, truncated, info = self.env.step(sub_act)
  done = terminated or truncated
  self.buf.add_obs(obs)
  self.buf.add_reward(rew)
  self.buf.add_done(done)
  self.buf.add_info(info)
  \<close>
\<close>

definition inner_step :: "('s, 'a, 'k, 'x, 'y) MultiStep \<Rightarrow> 'a \<Rightarrow> ('s, 'a, 'k, 'x, 'y) MultiStep" where
  "inner_step w sub_act =
     (let ((x, rew, terminated, truncated, info), e') = call_step (env w) sub_act;
          done = (terminated \<or> truncated)
      in w\<lparr>env := e',
           buf := add_info (add_done (add_reward (add_obs (buf w) x) rew) done) info\<rparr>)"

text \<open>
  \<^verbatim>\<open>
  for sub_act in action:
      if self.buf.dones and self.buf.dones[-1]:
          break
      ...
  \<close>
\<close>

fun step_loop :: "('s, 'a, 'k, 'x, 'y) MultiStep \<Rightarrow> 'a list \<Rightarrow> ('s, 'a, 'k, 'x, 'y) MultiStep" where
  "step_loop w [] = w"
| "step_loop w (sub_act # rest) =
     (if dones (buf w) \<noteq> [] \<and> last (dones (buf w)) then w
      else step_loop (inner_step w sub_act) rest)"

text \<open>
  \<open>{k : stack_last(v, self.n_obs) for k, v in self.buf.infos.items()}\<close>; every
  \<open>v\<close> is a deque.
\<close>

fun stack_infos :: "(string \<times> 'y nd deque) list \<Rightarrow> int \<Rightarrow> error + (string \<times> 'y nd) list" where
  "stack_infos [] n = Inr []"
| "stack_infos ((k, v) # kvs) n =
     (case stack_last (PyDeque v) n of
        Inl e \<Rightarrow> Inl e
      | Inr s \<Rightarrow>
          (case stack_infos kvs n of
             Inl e \<Rightarrow> Inl e
           | Inr r \<Rightarrow> Inr ((k, s) # r)))"

text \<open>
  \<open>if self.max_ep and len(self.buf.rewards) >= self.max_ep\<close>: \<open>None\<close> and 0 are
  false.
\<close>

definition ceiling_reached :: "('s, 'a, 'k, 'x, 'y) MultiStep \<Rightarrow> bool" where
  "ceiling_reached w =
     (case max_ep w of
        None \<Rightarrow> False
      | Some k \<Rightarrow> k \<noteq> 0 \<and> k \<le> int (length (rewards (buf w))))"

text \<open>
  The macro-step up to its \<open>return\<close> statement:
  \<^verbatim>\<open>
  assert len(action) == self.n_action
  for sub_act in action: ...
  r_red, d_red = self.buf.reduce(self.reward_reduce)
  if self.max_ep and len(self.buf.rewards) >= self.max_ep:
      d_red = True
  \<close>
  It gives the instance as it then is, and the exception raised or the pair
  \<open>(r_red, d_red)\<close>.
\<close>

definition step_reduced :: "('s, 'a, 'k, 'x, 'y) MultiStep \<Rightarrow> 'a list \<Rightarrow>
    ('s, 'a, 'k, 'x, 'y) MultiStep \<times> (error + (pyfloat \<times> bool))" where
  "step_reduced w action =
     (if int (length action) \<noteq> n_action w then (w, Inl AssertionError)
      else
        (let w1 = step_loop w action in
         case reduce (buf w1) (reward_reduce w1) of
           Inl e \<Rightarrow> (w1, Inl e)
         | Inr (r_red, d_red) \<Rightarrow>
             (w1, Inr (r_red, if ceiling_reached w1 then True else d_red))))"

text \<open>
  The whole macro-step: the statements above, then
  \<^verbatim>\<open>
  return self._stack_obs(), r_red, d_red, {...}
  \<close>
  The tuple is built from left to right: \<open>_stack_obs\<close> runs before the dictionary
  comprehension.
\<close>

definition step :: "('s, 'a, 'k, 'x, 'y) MultiStep \<Rightarrow> 'a list \<Rightarrow>
    ('s, 'a, 'k, 'x, 'y) MultiStep \<times> (error + ('x nd \<times> pyfloat \<times> bool \<times> (string \<times> 'y nd) list))" where
  "step w action =
     (case step_reduced w action of
        (w1, Inl e) \<Rightarrow> (w1, Inl e)
      | (w1, Inr (r_red, d_red)) \<Rightarrow>
          (case stack_obs w1 of
             Inl e \<Rightarrow> (w1, Inl e)
           | Inr so \<Rightarrow>
               (case stack_infos (infos (buf w1)) (n_obs w1) of
                  Inl e \<Rightarrow> (w1, Inl e)
                | Inr si \<Rightarrow> (w1, Inr (so, r_red, d_red, si)))))"

section \<open>Sequences of calls\<close>

text \<open>
  A caller resets the wrapper and makes macro-steps in any order; an exception leaves
  the instance as the call had changed it so far.
\<close>

datatype ('a, 'k) call = Reset 'k | MacroStep "'a list"

fun perform :: "('s, 'a, 'k, 'x, 'y) MultiStep \<Rightarrow> ('a, 'k) call \<Rightarrow> ('s, 'a, 'k, 'x, 'y) MultiStep" where
  "perform w (Reset kw) = fst (reset w kw)"
| "perform w (MacroStep action) = fst (step w action)"

definition run :: "('s, 'a, 'k, 'x, 'y) MultiStep \<Rightarrow> ('a, 'k) call list \<Rightarrow> ('s, 'a, 'k, 'x, 'y) MultiStep" where
  "run w cs = foldl perform w cs"

text \<open>The bounds on the buffers: both kinds of window hold at most \<open>n_obs + 1\<close> items,
  and \<open>rewards\<close> and \<open>dones\<close> are parallel.\<close>

definition buffers_bounded :: "('s, 'a, 'k, 'x, 'y) MultiStep \<Rightarrow> bool" where
  "buffers_bounded w =
     (int (length (items (obs (buf w)))) \<le> n_obs w + 1 \<and>
      list_all (\<lambda>(k, d). int (length (items d)) \<le> n_obs w + 1) (infos (buf w)) \<and>
      length (rewards (buf w)) = length (dones (buf w)))"

text \<open>\<open>terminated or truncated\<close> of one result of the environment's \<open>step\<close>.\<close>

definition reports_done :: "'x nd \<times> real \<times> bool \<times> bool \<times> (string \<times> 'y nd) list \<Rightarrow> bool" where
  "reports_done r = (case r of (x, rew, terminated, truncated, info) \<Rightarrow> terminated \<or> truncated)"

section \<open>Example inputs\<close>

text \<open>A buffer holding the rewards 1, 3, 2 and the flags False, False, \<open>d\<close>.\<close>

definition reduce_example :: "bool \<Rightarrow> (unit, unit) StepBuffers" where
  "reduce_example d =
     \<lparr>sb_n_obs = 1, obs = \<lparr>maxlen = 2, items = []\<rparr>, rewards = [1, 3, 2],
      dones = [False, False, d], infos = []\<rparr>"

text \<open>A box of shape \<open>(3,)\<close> with bounds 0 and 1 and dtype float32.\<close>

definition box3 :: box where
  "box3 = \<lparr>low = Stack [Scalar (Num 0), Scalar (Num 0), Scalar (Num 0)],
           high = Stack [Scalar (Num 1), Scalar (Num 1), Scalar (Num 1)],
           box_dtype = Float32\<rparr>"

text \<open>A box of shape \<open>(3,)\<close> with bounds \<open>lo\<close> and \<open>hi\<close> and dtype float32.\<close>

definition float_box3 :: "real \<Rightarrow> real \<Rightarrow> box" where
  "float_box3 lo hi =
     \<lparr>low = Stack [Scalar (Num lo), Scalar (Num lo), Scalar (Num lo)],
      high = Stack [Scalar (Num hi), Scalar (Num hi), Scalar (Num hi)],
      box_dtype = Float32\<rparr>"

text \<open>
  An environment that counts its steps: the observation is the number of the step, the
  reward is 1, \<open>terminated\<close> is the constant \<open>t\<close>, \<open>truncated\<close> is false and the
  info record has the one field \<open>t\<close>.
\<close>

definition demo_env :: "bool \<Rightarrow> (nat, unit, unit, real, real) gym_env" where
  "demo_env t =
     \<lparr>env_state = 0,
      env_reset = (\<lambda>s kw. (Scalar 0, 0)),
      env_step = (\<lambda>s a. ((Scalar (real (Suc s)), 1, t, False, [(''t'', Scalar (real s))]), Suc s)),
      env_observation_space = Box box3,
      env_action_space = Box box3,
      step_calls = 0\<rparr>"

text \<open>The test of the \<open>break\<close>: the last flag recorded is true.\<close>

definition latched :: "('s, 'a, 'k, 'x, 'y) MultiStep \<Rightarrow> bool" where
  "latched w = (dones (buf w) \<noteq> [] \<and> last (dones (buf w)))"

text \<open>
  What the constructor establishes and every call keeps: the windows were made with
  \<open>maxlen = n_obs + 1\<close> and hold no more than that.
\<close>

definition window_sized :: "nat \<Rightarrow> 'v deque \<Rightarrow> bool" where
  "window_sized m d = (maxlen d = m \<and> length (items d) \<le> m)"

definition buffers_sized :: "('s, 'a, 'k, 'x, 'y) MultiStep \<Rightarrow> bool" where
  "buffers_sized w =
     (- 1 \<le> n_obs w \<and> sb_n_obs (buf w) = n_obs w \<and>
      window_sized (nat (n_obs w + 1)) (obs (buf w)) \<and>
      list_all (\<lambda>(k, d). window_sized (nat (n_obs w + 1)) d) (infos (buf w)) \<and>
      length (rewards (buf w)) = length (dones (buf w)))"

text \<open>
  The wrapper that \<open>MultiStep(demo_env(t), n_obs=2, n_action=na, reward_reduce=rr,
  max_episode_steps=mx)\<close> constructs.
\<close>

definition demo_wrapper :: "bool \<Rightarrow> int \<Rightarrow> string \<Rightarrow> int option \<Rightarrow> (nat, unit, unit, real, real) MultiStep" where
  "demo_wrapper t na rr mx =
     \<lparr>env = demo_env t, n_obs = 2, n_action = na, reward_reduce = rr, max_ep = mx,
      obs_space = Box \<lparr>low = Stack (replicate 2 (low box3)),
                        high = Stack (replicate 2 (high box3)), box_dtype = UInt8\<rparr>,
      act_space = Box \<lparr>low = Stack (replicate (nat na) (low box3)),
                        high = Stack (replicate (nat na) (high box3)), box_dtype = UInt8\<rparr>,
      buf = \<lparr>sb_n_obs = 2, obs = \<lparr>maxlen = 3, items = []\<rparr>, rewards = [], dones = [],
             infos = []\<rparr>\<rparr>"

text \<open>The flags that a call taking the instance from \<open>w\<close> to \<open>w'\<close> has
  appended to \<open>dones\<close>.\<close>

definition recorded :: "('s, 'a, 'k, 'x, 'y) MultiStep \<Rightarrow> ('s, 'a, 'k, 'x, 'y) MultiStep \<Rightarrow> bool list" where
  "recorded w w' = drop (length (dones (buf w))) (dones (buf w'))"

text \<open>
  Bounds that uint8 holds as they are: a pair of whole numbers with
  \<open>0 \<le> low \<le> high \<le> 255\<close>; and a box of such bounds, low and high of one shape.
\<close>

fun uint8_pair :: "bound \<Rightarrow> bound \<Rightarrow> bool" where
  "uint8_pair (Num x) (Num y) =
     (0 \<le> x \<and> x \<le> y \<and> y \<le> 255 \<and> x = of_int \<lfloor>x\<rfloor> \<and> y = of_int \<lfloor>y\<rfloor>)"
| "uint8_pair l h = False"

definition uint8_box :: "box \<Rightarrow> bool" where
  "uint8_box b =
     (shape (low b) = shape (high b) \<and> list_all2 uint8_pair (flat (low b)) (flat (high b)))"

text \<open>
  The results of the inner steps one macro-step executes: the environment is stepped
  with the actions in order until a result reports termination. \<open>inner_rewards\<close> are
  the rewards among them; a macro-step that fails its assertion or starts with the
  last recorded flag true executes none.
\<close>

definition reward_of :: "'x nd \<times> real \<times> bool \<times> bool \<times> (string \<times> 'y nd) list \<Rightarrow> real" where
  "reward_of r = (case r of (x, rew, terminated, truncated, info) \<Rightarrow> rew)"

fun env_trace :: "('s, 'a, 'k, 'x, 'y) gym_env \<Rightarrow> 'a list \<Rightarrow>
    ('x nd \<times> real \<times> bool \<times> bool \<times> (string \<times> 'y nd) list) list" where
  "env_trace e [] = []"
| "env_trace e (a # rest) =
     (let (r, e') = call_step e a
      in r # (if reports_done r then [] else env_trace e' rest))"

definition inner_rewards :: "('s, 'a, 'k, 'x, 'y) MultiStep \<Rightarrow> 'a list \<Rightarrow> real list" where
  "inner_rewards w action =
     (if int (length action) \<noteq> n_action w \<or> latched w then []
      else map reward_of (env_trace (env w) action))"

section \<open>Properties of the reductions\<close>

lemma np_sum_sum_list: "np_sum xs = sum_list xs"
proof -
  have "fold (\<lambda>x acc. acc + x) xs a = a + sum_list xs" for a :: real
    by (induction xs arbitrary: a) simp_all
  then show ?thesis by (simp add: np_sum_def)
qed

lemma np_max_Max: "xs \<noteq> [] \<Longrightarrow> np_max xs = Inr (Max (set xs))" for xs :: "real list"
proof (cases xs)
  case (Cons x rest)
  then show ?thesis using Max.set_eq_fold [of x rest] by simp
qed simp

lemma np_min_Min: "xs \<noteq> [] \<Longrightarrow> np_min xs = Inr (Min (set xs))" for xs :: "real list"
proof (cases xs)
  case (Cons x rest)
  then show ?thesis using Min.set_eq_fold [of x rest] by simp
qed simp

lemma fold_max_bool: "fold max ds (d::bool) = (d \<or> (\<exists>x\<in>set ds. x))"
  by (induction ds arbitrary: d) (auto simp: max_def)

lemma np_max_bool: "ds \<noteq> [] \<Longrightarrow> np_max ds = Inr (\<exists>d\<in>set ds. d)"
  by (cases ds) (simp_all add: fold_max_bool)

text \<open>
  Claim C5. On a buffer whose rewards are not empty and whose flags are parallel to
  them, \<open>reduce\<close> returns, for each of the modes max, min, mean and sum, the pair of
  that reduction of all the rewards (the greatest, the least, the sum divided by the
  count, the sum) and of the disjunction of all the flags. Rewards are real numbers
  here, so rounding is left out.
\<close>

theorem reduce_modes:
  "rewards b \<noteq> [] \<Longrightarrow> length (dones b) = length (rewards b) \<Longrightarrow>
     reduce b ''max'' = Inr (Float (Max (set (rewards b))), \<exists>d\<in>set (dones b). d) \<and>
     reduce b ''min'' = Inr (Float (Min (set (rewards b))), \<exists>d\<in>set (dones b). d) \<and>
     reduce b ''mean'' =
       Inr (Float (sum_list (rewards b) / real (length (rewards b))), \<exists>d\<in>set (dones b). d) \<and>
     reduce b ''sum'' = Inr (Float (sum_list (rewards b)), \<exists>d\<in>set (dones b). d)"
proof -
  assume r: "rewards b \<noteq> []" and l: "length (dones b) = length (rewards b)"
  from r l have d: "dones b \<noteq> []" by auto
  show ?thesis
    using r d
    by (simp add: reduce_def agg_fn_map_def np_max_Max np_min_Min np_max_bool
        np_mean_def np_sum_sum_list)
qed

text \<open>The two examples of the claim: max of 1, 3, 2 with a last flag set is (3, True),
  and their sum with no flag set is (6, False).\<close>

theorem reduce_modes_witness:
  "reduce (reduce_example True) ''max'' = Inr (Float 3, True) \<and>
   reduce (reduce_example False) ''sum'' = Inr (Float 6, False)"
  using reduce_modes [of "reduce_example True"] reduce_modes [of "reduce_example False"]
  by (simp add: reduce_example_def)

section \<open>Properties of the space transform\<close>

lemma flat_replicate: "flat (Stack (replicate m a)) = concat (replicate m (flat a))"
  by simp

lemma shape_replicate_eq:
  "shape a = shape b \<Longrightarrow> shape (Stack (replicate m a)) = shape (Stack (replicate m b))"
  by (cases m) simp_all

lemma list_all2_concat_replicate:
  "list_all2 P xs ys \<Longrightarrow> list_all2 P (concat (replicate m xs)) (concat (replicate m ys))"
  by (induction m) (simp_all add: list_all2_appendI)

lemma uint8_pair_cases:
  assumes "uint8_pair l h"
  obtains x y where "l = Num x" "h = Num y" "0 \<le> x" "x \<le> y" "y \<le> 255"
    "x = of_int \<lfloor>x\<rfloor>" "y = of_int \<lfloor>y\<rfloor>"
  using assms by (cases l; cases h) auto

lemma uint8_of_whole:
  assumes "0 \<le> x" "x \<le> 255" "x = of_int \<lfloor>x\<rfloor>"
  shows "Num (real (uint8_of (Num x))) = Num x"
proof -
  from assms(1,2) have f: "0 \<le> \<lfloor>x\<rfloor>" "\<lfloor>x\<rfloor> \<le> 255" by (simp_all add: floor_le_iff le_floor_iff)
  then have "\<lfloor>x\<rfloor> mod 256 = \<lfloor>x\<rfloor>" by simp
  with assms(1) f have "real (uint8_of (Num x)) = of_int \<lfloor>x\<rfloor>" by simp
  with assms(3) show ?thesis by simp
qed

lemma uint8_pair_facts:
  assumes "uint8_pair l h"
  shows "l \<noteq> Nan" "l \<noteq> MinusInf" "\<not> below l 0" "h \<noteq> Nan" "h \<noteq> PlusInf" "\<not> above h 255"
    "\<not> uint8_of h < uint8_of l" "Num (real (uint8_of l)) = l" "Num (real (uint8_of h)) = h"
proof -
  from assms obtain x y where xy: "l = Num x" "h = Num y" "0 \<le> x" "x \<le> y" "y \<le> 255"
    "x = of_int \<lfloor>x\<rfloor>" "y = of_int \<lfloor>y\<rfloor>"
    by (rule uint8_pair_cases)
  from xy show "l \<noteq> Nan" "l \<noteq> MinusInf" "\<not> below l 0" "h \<noteq> Nan" "h \<noteq> PlusInf" "\<not> above h 255"
    by simp_all
  from xy have lx: "Num (real (uint8_of (Num x))) = Num x" by (intro uint8_of_whole) simp_all
  from xy have hy: "Num (real (uint8_of (Num y))) = Num y" by (intro uint8_of_whole) simp_all
  from lx hy xy show "Num (real (uint8_of l)) = l" "Num (real (uint8_of h)) = h" by simp_all
  from lx hy xy have "real (uint8_of l) \<le> real (uint8_of h)" by simp
  then show "\<not> uint8_of h < uint8_of l" by simp
qed

lemma astype_uint8_ident:
  "(\<forall>v\<in>set (flat a). Num (real (uint8_of v)) = v) \<Longrightarrow> astype_uint8 a = a"
proof (induction a)
  case (Scalar x)
  then show ?case by (simp add: astype_uint8_def)
next
  case (Stack fs)
  have "map (map_nd (\<lambda>v. Num (real (uint8_of v)))) fs = fs"
  proof (rule map_idI)
    fix f assume f: "f \<in> set fs"
    with Stack.prems have "\<forall>v\<in>set (flat f). Num (real (uint8_of v)) = v" by auto
    with Stack.IH [OF f] show "map_nd (\<lambda>v. Num (real (uint8_of v))) f = f"
      by (simp add: astype_uint8_def)
  qed
  then show ?case by (simp add: astype_uint8_def)
qed

lemma Box_uint8_accepts:
  assumes "shape lo = shape hi" and "list_all2 uint8_pair (flat lo) (flat hi)"
  shows "Box_uint8 lo hi d = Inr \<lparr>low = lo, high = hi, box_dtype = UInt8\<rparr>"
proof -
  have pairs: "uint8_pair l h" if "(l, h) \<in> set (zip (flat lo) (flat hi))" for l h
    using assms(2) that by (auto simp: list_all2_iff)
  have lows: "\<exists>h. uint8_pair l h" if "l \<in> set (flat lo)" for l
    using assms(2) that by (auto simp: list_all2_conv_all_nth in_set_conv_nth)
  have highs: "\<exists>l. uint8_pair l h" if "h \<in> set (flat hi)" for h
    using assms(2) that by (auto simp: list_all2_conv_all_nth in_set_conv_nth)
  have 1: "\<not> list_ex (\<lambda>v. v = Nan) (flat lo)" "\<not> list_ex (\<lambda>v. v = MinusInf) (flat lo)"
    "\<not> list_ex (\<lambda>v. below v 0) (flat lo)"
    using lows uint8_pair_facts(1-3) unfolding list_ex_iff by blast+
  have 2: "\<not> list_ex (\<lambda>v. v = Nan) (flat hi)" "\<not> list_ex (\<lambda>v. v = PlusInf) (flat hi)"
    "\<not> list_ex (\<lambda>v. above v 255) (flat hi)"
    using highs uint8_pair_facts(4-6) unfolding list_ex_iff by blast+
  have 3: "\<not> list_ex (\<lambda>(l, h). uint8_of h < uint8_of l) (zip (flat lo) (flat hi))"
    using pairs uint8_pair_facts(7) unfolding list_ex_iff by blast
  have 4: "astype_uint8 lo = lo"
    using lows uint8_pair_facts(8) by (intro astype_uint8_ident) blast
  have 5: "astype_uint8 hi = hi"
    using highs uint8_pair_facts(9) by (intro astype_uint8_ident) blast
  show ?thesis
    using assms(1) 1 2 3 by (simp add: Box_uint8_def 4 5)
qed

lemma repeated_box_uint8:
  assumes "0 \<le> n" and "uint8_box b"
  shows "repeated_box b n =
    Inr \<lparr>low = Stack (replicate (nat n) (low b)), high = Stack (replicate (nat n) (high b)),
         box_dtype = UInt8\<rparr>"
proof -
  from assms(2) have s: "shape (low b) = shape (high b)"
    and p: "list_all2 uint8_pair (flat (low b)) (flat (high b))"
    by (simp_all add: uint8_box_def)
  have s': "shape (Stack (replicate (nat n) (low b))) = shape (Stack (replicate (nat n) (high b)))"
    using s by (rule shape_replicate_eq)
  have p': "list_all2 uint8_pair (flat (Stack (replicate (nat n) (low b))))
      (flat (Stack (replicate (nat n) (high b))))"
    unfolding flat_replicate using p by (rule list_all2_concat_replicate)
  show ?thesis
    using assms(1) Box_uint8_accepts [OF s' p']
    by (simp add: repeated_box_def expand_dims0_def del: shape.simps flat.simps)
qed

lemma uint8_box_box3: "uint8_box box3"
  by (simp add: uint8_box_def box3_def)

text \<open>
  Claim C6 does not hold of the code. \<open>repeated_box\<close> passes \<open>dtype=np.uint8\<close> to
  the constructor whatever the dtype of the box, where its docstring has the dtype
  copied. The constructor then refuses a float32 box with bounds -1 and 1, so that no
  box of shape \<open>(4, 3)\<close> is returned, and it cuts the bounds 0.5 and 1.5 down to 0 and
  1, so that the bounds returned are not those of the input.
\<close>

theorem repeated_space_forced_uint8:
  "repeated_space (Box (float_box3 (- 1) 1)) 4 = Inl ValueError \<and>
   repeated_space (Box (float_box3 (1 / 2) (3 / 2))) 4 =
     Inr (Box \<lparr>low = Stack (replicate 4 (low (float_box3 0 1))),
               high = Stack (replicate 4 (high (float_box3 0 1))), box_dtype = UInt8\<rparr>)"
  by (simp add: repeated_box_def expand_dims0_def Box_uint8_def float_box3_def
      astype_uint8_def numeral_eq_Suc)

section \<open>Properties of the wrapper\<close>

text \<open>The macro-step in one piece.\<close>

lemma step_eq:
  "step w action =
     (if int (length action) \<noteq> n_action w then (w, Inl AssertionError)
      else
        (let w1 = step_loop w action in
         case reduce (buf w1) (reward_reduce w1) of
           Inl e \<Rightarrow> (w1, Inl e)
         | Inr (r_red, d_red) \<Rightarrow>
             (let d_red' = (if ceiling_reached w1 then True else d_red) in
              case stack_obs w1 of
                Inl e \<Rightarrow> (w1, Inl e)
              | Inr so \<Rightarrow>
                  (case stack_infos (infos (buf w1)) (n_obs w1) of
                     Inl e \<Rightarrow> (w1, Inl e)
                   | Inr si \<Rightarrow> (w1, Inr (so, r_red, d_red', si))))))"
  by (simp add: step_def step_reduced_def Let_def split: sum.splits prod.splits)

text \<open>
  Claim C8. A macro-step whose action sequence has a length other than \<open>n_action\<close>
  fails at the assertion (the \<open>AssertionError\<close> is the specification's
  ActionCountMismatch) and leaves the whole instance as it was: the environment has
  not been called and the buffers are unchanged.
\<close>

theorem step_wrong_action_count:
  "int (length action) \<noteq> n_action w \<Longrightarrow> step w action = (w, Inl AssertionError)"
  by (simp add: step_eq)

section \<open>Properties of stack\_last\<close>

lemma shape_replicate: "0 < m \<Longrightarrow> shape (Stack (replicate m f)) = m # shape f"
  by (cases m) simp_all

lemma shape_Stack_nonempty: "fs \<noteq> [] \<Longrightarrow> shape (Stack fs) = length fs # shape (hd fs)"
  by (cases fs) simp_all

lemma np_stack_same_shape:
  "fs \<noteq> [] \<Longrightarrow> \<forall>f\<in>set fs. shape f = s \<Longrightarrow> np_stack fs = Inr (Stack fs)"
  by (cases fs) (auto simp: np_stack_def list_all_iff)

lemma py_slice_from_neg: "0 < n \<Longrightarrow> py_slice_from xs (- n) = drop (length xs - nat n) xs"
  by (simp add: py_slice_from_def nat_diff_distrib')

lemma stack_last_short:
  assumes "h \<noteq> []" and "\<forall>f\<in>set h. shape f = shape (hd h)" and "int (length h) < n"
  shows "stack_last (PyList h) n = Inr (Stack (replicate (nat n - length h) (hd h) @ h))"
proof -
  from assms(3) have n: "0 < n" by linarith
  from assms(3) have "nat n \<ge> length h" by linarith
  then have tail: "py_slice_from h (- n) = h" using n by (simp add: py_slice_from_neg)
  have core: "np_stack h = Inr (Stack h)"
    using assms(1,2) by (rule np_stack_same_shape)
  from assms(3) have pad: "max 0 (n - int (length h)) = n - int (length h)" by simp
  from assms(3) have pad_ne: "n - int (length h) \<noteq> 0" by simp
  from assms(3) have padn: "nat (n - int (length h)) = nat n - length h" by linarith
  from assms(3) have pos: "0 < nat n - length h" by linarith
  from assms(1) have first: "take (Suc 0) h = [hd h]" by (cases h) simp_all
  have rep: "np_repeat0 (Stack [hd h]) (n - int (length h)) =
               Inr (Stack (replicate (nat n - length h) (hd h)))"
    using assms(3) by (simp add: padn)
  have cat: "np_concatenate0 (Stack (replicate (nat n - length h) (hd h))) (Stack h) =
               Inr (Stack (replicate (nat n - length h) (hd h) @ h))"
    using pos assms(1) by (simp add: shape_replicate shape_Stack_nonempty)
  show ?thesis
    unfolding stack_last_def Let_def seq_len.simps slice_from.simps tail pad
    using pad_ne by (simp add: core first rep cat del: np_repeat0.simps np_concatenate0.simps)
qed

lemma stack_last_long:
  assumes "h \<noteq> []" and "\<forall>f\<in>set h. shape f = shape (hd h)" and "1 \<le> n" and "n \<le> int (length h)"
  shows "stack_last (PyList h) n = Inr (Stack (drop (length h - nat n) h))"
proof -
  let ?tail = "drop (length h - nat n) h"
  from assms(3) have n: "0 < n" by linarith
  have tail: "py_slice_from h (- n) = ?tail" using n by (rule py_slice_from_neg)
  from assms(1,3) have "length h - nat n < length h" by (cases h) auto
  then have tail_ne: "?tail \<noteq> []" by simp
  have "set ?tail \<subseteq> set h" by (rule set_drop_subset)
  with assms(2) have "\<forall>f\<in>set ?tail. shape f = shape (hd h)" by blast
  with tail_ne have core: "np_stack ?tail = Inr (Stack ?tail)" by (rule np_stack_same_shape)
  from assms(4) have pad: "max 0 (n - int (length h)) = 0" by simp
  show ?thesis
    unfolding stack_last_def Let_def seq_len.simps slice_from.simps tail pad
    by (simp add: core)
qed

text \<open>
  Claim C4, amended. For every non-empty history \<open>h\<close> of frames of one shape and
  every \<open>n \<ge> 1\<close>, \<open>stack_last\<close> returns a stack of exactly \<open>n\<close> frames, each of
  the shape (and, by its type, the dtype) of the frames of \<open>h\<close>; when
  \<open>len(h) \<ge> n\<close> they are the last \<open>n\<close> frames of \<open>h\<close> in order, and when
  \<open>len(h) < n\<close> the first \<open>n - len(h)\<close> are \<open>h[0]\<close> and the rest is \<open>h\<close>.
\<close>

theorem stack_last_nonempty_history:
  assumes "h \<noteq> []" and "\<forall>f\<in>set h. shape f = shape (h ! 0)" and "1 \<le> n"
  shows "(\<exists>fs. stack_last (PyList h) n = Inr (Stack fs) \<and> length fs = nat n \<and>
            (\<forall>f\<in>set fs. shape f = shape (h ! 0)) \<and>
            (n \<le> int (length h) \<longrightarrow> fs = drop (length h - nat n) h) \<and>
            (int (length h) < n \<longrightarrow>
               take (nat n - length h) fs = replicate (nat n - length h) (h ! 0) \<and>
               drop (nat n - length h) fs = h))"
proof -
  from assms(1) have h0: "h ! 0 = hd h" by (simp add: hd_conv_nth)
  with assms(2) have same: "\<forall>f\<in>set h. shape f = shape (hd h)" by simp
  from assms(1) have hd_in: "hd h \<in> set h" by simp
  show ?thesis
  proof (cases "int (length h) < n")
    case True
    let ?fs = "replicate (nat n - length h) (hd h) @ h"
    have "stack_last (PyList h) n = Inr (Stack ?fs)"
      using assms(1) same True by (rule stack_last_short)
    moreover have "length ?fs = nat n" using True by simp
    moreover have "\<forall>f\<in>set ?fs. shape f = shape (h ! 0)" using same h0 by auto
    moreover have "take (nat n - length h) ?fs = replicate (nat n - length h) (h ! 0)"
      by (simp add: h0)
    moreover have "drop (nat n - length h) ?fs = h" by simp
    ultimately show ?thesis using True by auto
  next
    case False
    then have le: "n \<le> int (length h)" by simp
    let ?fs = "drop (length h - nat n) h"
    have "stack_last (PyList h) n = Inr (Stack ?fs)"
      using assms(1) same assms(3) le by (rule stack_last_long)
    moreover have "length ?fs = nat n" using le assms(3) by simp
    moreover have "\<forall>f\<in>set ?fs. shape f = shape (h ! 0)"
      using same h0 set_drop_subset [of "length h - nat n" h] by auto
    ultimately show ?thesis using False by auto
  qed
qed

text \<open>The history \<open>[A, B]\<close> with \<open>n = 4\<close> gives \<open>[A, A, A, B]\<close>, and
  \<open>[A, B, C]\<close> with \<open>n = 2\<close> gives \<open>[B, C]\<close>.\<close>

theorem stack_last_nonempty_history_witness:
  "stack_last (PyList [Scalar (7::int), Scalar 8]) 4 =
     Inr (Stack [Scalar 7, Scalar 7, Scalar 7, Scalar 8]) \<and>
   stack_last (PyList [Scalar (7::int), Scalar 8, Scalar 9]) 2 = Inr (Stack [Scalar 8, Scalar 9])"
proof -
  obtain fs where fs: "stack_last (PyList [Scalar (7::int), Scalar 8]) 4 = Inr (Stack fs)"
      "take 2 fs = [Scalar 7, Scalar 7]" "drop 2 fs = [Scalar 7, Scalar 8]"
    using stack_last_nonempty_history [of "[Scalar (7::int), Scalar 8]" 4]
    by (auto simp: numeral_eq_Suc)
  have "fs = take 2 fs @ drop 2 fs" by simp
  with fs(2,3) have "fs = [Scalar 7, Scalar 7, Scalar 7, Scalar 8]" by simp
  with fs(1) show ?thesis
    using stack_last_nonempty_history [of "[Scalar (7::int), Scalar 8, Scalar 9]" 2]
    by (auto simp: numeral_eq_Suc)
qed

text \<open>
  Claim C4 as stated fails on the empty history: \<open>np.stack\<close> of no frames raises
  \<open>ValueError\<close>, so no stack of \<open>n\<close> frames is returned.
\<close>

theorem stack_last_empty_history:
  "stack_last (PyList ([] :: real nd list)) 1 = Inl ValueError"
  by (simp add: stack_last_def py_slice_from_def np_stack_def)

section \<open>Properties of the macro-step loop\<close>

subsection \<open>Buffers\<close>

lemma add_info_Nil: "add_info b [] = b"
  by (simp add: add_info_def)

lemma add_info_Cons:
  "add_info b ((k, v) # info) =
     add_info (b\<lparr>infos := setdefault_append (infos b) k (nat (sb_n_obs b + 1)) v\<rparr>) info"
  by (simp add: add_info_def)

lemma add_info_fields:
  "rewards (add_info b info) = rewards b \<and> dones (add_info b info) = dones b \<and>
   obs (add_info b info) = obs b \<and> sb_n_obs (add_info b info) = sb_n_obs b"
proof (induction info arbitrary: b)
  case Nil
  show ?case by (simp add: add_info_Nil)
next
  case (Cons kv info)
  obtain k v where kv: "kv = (k, v)" by (cases kv)
  show ?case unfolding kv add_info_Cons using Cons.IH by simp
qed

lemma length_dq_append: "length (items (dq_append d x)) \<le> maxlen d"
  by (simp add: dq_append_def)

lemma maxlen_dq_append: "maxlen (dq_append d x) = maxlen d"
  by (simp add: dq_append_def)

subsection \<open>Inner steps\<close>

lemma inner_step_params:
  "n_obs (inner_step w a) = n_obs w \<and> n_action (inner_step w a) = n_action w \<and>
   reward_reduce (inner_step w a) = reward_reduce w \<and> max_ep (inner_step w a) = max_ep w"
  by (simp add: inner_step_def Let_def split: prod.splits)

lemma inner_step_calls: "step_calls (env (inner_step w a)) = Suc (step_calls (env w))"
  by (simp add: inner_step_def call_step_def Let_def split: prod.splits)

lemma inner_step_dones:
  "dones (buf (inner_step w a)) =
     dones (buf w) @ [reports_done (fst (env_step (env w) (env_state (env w)) a))]"
  by (simp add: inner_step_def call_step_def Let_def add_info_fields add_done_def
      add_reward_def add_obs_def reports_done_def split: prod.splits)

lemma inner_step_rewards:
  "\<exists>r. rewards (buf (inner_step w a)) = rewards (buf w) @ [r]"
  by (simp add: inner_step_def call_step_def Let_def add_info_fields add_done_def
      add_reward_def add_obs_def split: prod.splits)

lemma step_loop_latched: "latched w \<Longrightarrow> step_loop w action = w"
  by (cases action) (simp_all add: latched_def)

lemma step_loop_params:
  "n_obs (step_loop w action) = n_obs w \<and> n_action (step_loop w action) = n_action w \<and>
   reward_reduce (step_loop w action) = reward_reduce w \<and> max_ep (step_loop w action) = max_ep w"
  by (induction w action rule: step_loop.induct) (simp_all add: inner_step_params)

lemma step_loop_trace:
  "\<exists>new. dones (buf (step_loop w action)) = dones (buf w) @ new \<and>
     step_calls (env (step_loop w action)) = step_calls (env w) + length new \<and>
     length (rewards (buf (step_loop w action))) = length (rewards (buf w)) + length new \<and>
     length new \<le> length action \<and> (\<forall>d\<in>set (butlast new). \<not> d)"
proof (induction action arbitrary: w)
  case Nil
  show ?case by simp
next
  case (Cons a rest)
  show ?case
  proof (cases "latched w")
    case True
    then have "step_loop w (a # rest) = w" by (rule step_loop_latched)
    then show ?thesis by (simp del: step_loop.simps)
  next
    case False
    let ?w1 = "inner_step w a"
    let ?d = "reports_done (fst (env_step (env w) (env_state (env w)) a))"
    from False have unfold: "step_loop w (a # rest) = step_loop ?w1 rest"
      by (auto simp: latched_def)
    obtain new where new:
      "dones (buf (step_loop ?w1 rest)) = dones (buf ?w1) @ new"
      "step_calls (env (step_loop ?w1 rest)) = step_calls (env ?w1) + length new"
      "length (rewards (buf (step_loop ?w1 rest))) = length (rewards (buf ?w1)) + length new"
      "length new \<le> length rest" "\<forall>d\<in>set (butlast new). \<not> d"
      using Cons.IH [of ?w1] by (elim exE conjE)
    obtain r where r: "rewards (buf ?w1) = rewards (buf w) @ [r]"
      using inner_step_rewards [of w a] by (elim exE)
    have stop: "new = []" if "?d"
    proof -
      from that have "latched ?w1" by (simp add: latched_def inner_step_dones)
      then have "step_loop ?w1 rest = ?w1" by (rule step_loop_latched)
      with new(1) show ?thesis by simp
    qed
    have "dones (buf (step_loop w (a # rest))) = dones (buf w) @ (?d # new)"
      unfolding unfold new(1) by (simp add: inner_step_dones)
    moreover have "step_calls (env (step_loop w (a # rest))) = step_calls (env w) + length (?d # new)"
      unfolding unfold new(2) by (simp add: inner_step_calls)
    moreover have "length (rewards (buf (step_loop w (a # rest)))) =
        length (rewards (buf w)) + length (?d # new)"
      unfolding unfold new(3) by (simp add: r)
    moreover have "length (?d # new) \<le> length (a # rest)" using new(4) by simp
    moreover have "\<forall>d\<in>set (butlast (?d # new)). \<not> d"
      using new(5) stop by auto
    ultimately show ?thesis by blast
  qed
qed

lemma fst_step:
  "fst (step w action) = (if int (length action) = n_action w then step_loop w action else w)"
  by (simp add: step_eq Let_def split: sum.splits prod.splits)

lemma stack_obs_TypeError: "stack_obs w = Inl TypeError"
  by (simp add: stack_obs_def)

lemma step_raises: "\<exists>e. snd (step w action) = Inl e"
  by (simp add: step_eq stack_obs_TypeError Let_def split: sum.splits prod.splits)

lemma reset_raises: "\<exists>e. snd (reset w kw) = Inl e"
  by (simp add: reset_def stack_obs_TypeError Let_def split: sum.splits prod.splits)

section \<open>The bounds on the buffers\<close>

lemma window_sized_append: "maxlen d = m \<Longrightarrow> window_sized m (dq_append d x)"
  by (simp add: window_sized_def dq_append_def)

lemma setdefault_append_sized:
  "list_all (\<lambda>(k, d). window_sized m d) kds \<Longrightarrow>
   list_all (\<lambda>(k, d). window_sized m d) (setdefault_append kds key m v)"
proof (induction kds)
  case Nil
  show ?case by (simp add: window_sized_append)
next
  case (Cons kd kds)
  obtain k' d where kd: "kd = (k', d)" by (cases kd)
  from Cons.prems have wd: "window_sized m d" and rest: "list_all (\<lambda>(k, d). window_sized m d) kds"
    by (simp_all add: kd)
  from wd have d: "maxlen d = m" by (simp add: window_sized_def)
  show ?case
    using wd rest Cons.IH [OF rest] window_sized_append [OF d] by (simp add: kd)
qed

lemma add_info_sized:
  "list_all (\<lambda>(k, d). window_sized (nat (sb_n_obs b + 1)) d) (infos b) \<Longrightarrow>
   list_all (\<lambda>(k, d). window_sized (nat (sb_n_obs b + 1)) d) (infos (add_info b info))"
proof (induction info arbitrary: b)
  case Nil
  then show ?case by (simp add: add_info_Nil)
next
  case (Cons kv info)
  obtain k v where kv: "kv = (k, v)" by (cases kv)
  let ?b' = "b\<lparr>infos := setdefault_append (infos b) k (nat (sb_n_obs b + 1)) v\<rparr>"
  have "list_all (\<lambda>(k, d). window_sized (nat (sb_n_obs ?b' + 1)) d) (infos ?b')"
    using Cons.prems by (simp add: setdefault_append_sized)
  from Cons.IH [OF this] show ?case by (simp add: kv add_info_Cons)
qed

lemma inner_step_sized: "buffers_sized w \<Longrightarrow> buffers_sized (inner_step w a)"
proof -
  assume inv: "buffers_sized w"
  obtain x rew tm tr info s' where r: "env_step (env w) (env_state (env w)) a = ((x, rew, tm, tr, info), s')"
    by (metis prod_cases5 surj_pair)
  let ?b = "add_done (add_reward (add_obs (buf w) x) rew) (tm \<or> tr)"
  have b: "buf (inner_step w a) = add_info ?b info" and n: "n_obs (inner_step w a) = n_obs w"
    by (simp_all add: inner_step_def call_step_def r)
  have sb: "sb_n_obs ?b = n_obs w" and inf: "infos ?b = infos (buf w)"
    and ob: "obs ?b = dq_append (obs (buf w)) x"
    and len: "length (rewards ?b) = length (dones ?b)"
    using inv by (simp_all add: add_done_def add_reward_def add_obs_def buffers_sized_def)
  have "list_all (\<lambda>(k, d). window_sized (nat (sb_n_obs ?b + 1)) d) (infos ?b)"
    using inv unfolding sb inf by (simp add: buffers_sized_def)
  then have "list_all (\<lambda>(k, d). window_sized (nat (sb_n_obs ?b + 1)) d) (infos (add_info ?b info))"
    by (rule add_info_sized)
  then have i: "list_all (\<lambda>(k, d). window_sized (nat (n_obs w + 1)) d) (infos (add_info ?b info))"
    unfolding sb .
  have "maxlen (obs (buf w)) = nat (n_obs w + 1)"
    using inv by (simp add: buffers_sized_def window_sized_def)
  then have o: "window_sized (nat (n_obs w + 1)) (dq_append (obs (buf w)) x)"
    by (rule window_sized_append)
  show ?thesis
    unfolding buffers_sized_def b n
    using inv i o len sb ob by (simp add: add_info_fields buffers_sized_def)
qed

lemma step_loop_sized: "buffers_sized w \<Longrightarrow> buffers_sized (step_loop w action)"
  by (induction w action rule: step_loop.induct) (simp_all add: inner_step_sized)

lemma step_sized: "buffers_sized w \<Longrightarrow> buffers_sized (fst (step w action))"
  by (simp add: fst_step step_loop_sized)

lemma reset_sized: "buffers_sized w \<Longrightarrow> buffers_sized (fst (reset w kw))"
  by (simp add: reset_def call_reset_def StepBuffers_init_def new_deque_def add_obs_def
      buffers_sized_def window_sized_append Let_def split: prod.splits)

lemma run_sized: "buffers_sized w \<Longrightarrow> buffers_sized (run w cs)"
proof (induction cs arbitrary: w)
  case Nil
  then show ?case by (simp add: run_def)
next
  case (Cons c cs)
  have "buffers_sized (perform w c)"
    using Cons.prems by (cases c) (simp_all add: reset_sized step_sized)
  from Cons.IH [OF this] show ?case by (simp add: run_def)
qed

lemma init_sized:
  "MultiStep_init e n m rr mx = Inr w \<Longrightarrow> buffers_sized w"
  by (auto simp: MultiStep_init_def StepBuffers_init_def new_deque_def buffers_sized_def
      window_sized_def split: sum.splits if_splits)

lemma window_sized_le:
  "- 1 \<le> n \<Longrightarrow> window_sized (nat (n + 1)) d \<Longrightarrow> int (length (items d)) \<le> n + 1"
  unfolding window_sized_def by linarith

lemma sized_bounded: "buffers_sized w \<Longrightarrow> buffers_bounded w"
proof -
  assume inv: "buffers_sized w"
  then have n: "- 1 \<le> n_obs w" by (simp add: buffers_sized_def)
  have "list_all (\<lambda>(k, d). int (length (items d)) \<le> n_obs w + 1) (infos (buf w))"
    using inv window_sized_le [OF n] by (auto simp: buffers_sized_def list_all_iff)
  then have infos_le: "list_all (\<lambda>(k, d). int (length (items d)) \<le> n_obs w + 1) (infos (buf w))" .
  from inv have "window_sized (nat (n_obs w + 1)) (obs (buf w))"
    by (simp add: buffers_sized_def)
  with n have obs_le: "int (length (items (obs (buf w)))) \<le> n_obs w + 1"
    by (rule window_sized_le)
  from inv have "length (rewards (buf w)) = length (dones (buf w))"
    by (simp add: buffers_sized_def)
  with obs_le infos_le show ?thesis by (simp add: buffers_bounded_def)
qed

text \<open>
  Claim C9. After any sequence of \<open>reset\<close> and macro-step calls on a constructed
  wrapper, the observation window holds at most \<open>n_obs + 1\<close> frames, so does the
  window of every info field, and \<open>rewards\<close> and \<open>dones\<close> have the same length.
\<close>

theorem buffers_bounded_always:
  "MultiStep_init e n m rr mx = Inr w \<Longrightarrow> buffers_bounded (run w cs)"
  by (intro sized_bounded run_sized init_sized)

section \<open>Calls on an example wrapper\<close>

lemma demo_wrapper_constructed:
  "0 \<le> na \<Longrightarrow> MultiStep_init (demo_env t) 2 na rr mx = Inr (demo_wrapper t na rr mx)"
  using repeated_box_uint8 [OF _ uint8_box_box3, of 2] repeated_box_uint8 [OF _ uint8_box_box3, of na]
  by (simp add: MultiStep_init_def demo_env_def demo_wrapper_def StepBuffers_init_def
      new_deque_def)

text \<open>An instance of the bounds: a constructed wrapper after two episodes, one of
  them with a macro-step that fails its assertion.\<close>

theorem buffers_bounded_always_witness:
  "MultiStep_init (demo_env False) 2 2 ''max'' None = Inr (demo_wrapper False 2 ''max'' None) \<and>
   buffers_bounded (run (demo_wrapper False 2 ''max'' None)
     [Reset (), MacroStep [(), ()], MacroStep [(), ()], MacroStep [()], Reset (), MacroStep [(), ()]])"
proof -
  have c: "MultiStep_init (demo_env False) 2 2 ''max'' None = Inr (demo_wrapper False 2 ''max'' None)"
    by (simp add: demo_wrapper_constructed)
  from c buffers_bounded_always [OF c] show ?thesis by simp
qed

text \<open>One action given to a wrapper with \<open>n_action = 2\<close>.\<close>

theorem step_wrong_action_count_witness:
  "int (length [()]) \<noteq> n_action (demo_wrapper False 2 ''max'' None) \<and>
   step (demo_wrapper False 2 ''max'' None) [()] =
     (demo_wrapper False 2 ''max'' None, Inl AssertionError)"
proof -
  have h: "int (length [()]) \<noteq> n_action (demo_wrapper False 2 ''max'' None)"
    by (simp add: demo_wrapper_def)
  from h step_wrong_action_count [OF h] show ?thesis by simp
qed

text \<open>
  Claim C2 does not hold of the code. The constructor computes the stacked action space
  and stores it in \<open>_act_space\<close>, but reading the property \<open>action_space\<close>
  raises \<open>NameError\<close> and returns no space, while the sibling property
  \<open>observation_space\<close> returns \<open>self._obs_space\<close>.
\<close>

theorem action_space_raises:
  "MultiStep_init (demo_env False) 2 3 ''max'' None = Inr (demo_wrapper False 3 ''max'' None) \<and>
   repeated_space (env_action_space (demo_env False)) 3 =
     Inr (act_space (demo_wrapper False 3 ''max'' None)) \<and>
   action_space (demo_wrapper False 3 ''max'' None) = Inl (NameError ''self_act_space'')"
proof -
  have "MultiStep_init (demo_env False) 2 3 ''max'' None = Inr (demo_wrapper False 3 ''max'' None)"
    by (simp add: demo_wrapper_constructed)
  moreover have "repeated_space (env_action_space (demo_env False)) 3 =
      Inr (act_space (demo_wrapper False 3 ''max'' None))"
    using repeated_box_uint8 [OF _ uint8_box_box3, of 3]
    by (simp add: demo_wrapper_def demo_env_def)
  moreover have "action_space (demo_wrapper False 3 ''max'' None) = Inl (NameError ''self_act_space'')"
    by (simp add: action_space_def)
  ultimately show ?thesis by simp
qed

section \<open>Early termination\<close>

lemma reset_fresh:
  assumes "- 1 \<le> n_obs w"
  shows "dones (buf (fst (reset w kw))) = [] \<and> rewards (buf (fst (reset w kw))) = [] \<and>
         n_action (fst (reset w kw)) = n_action w \<and> n_obs (fst (reset w kw)) = n_obs w \<and>
         step_calls (env (fst (reset w kw))) = step_calls (env w)"
  using assms
  by (simp add: reset_def call_reset_def StepBuffers_init_def new_deque_def add_obs_def
      Let_def split: prod.splits)

lemma step_loop_stops_at_done:
  assumes "dones (buf w) = []"
    and "reports_done (fst (env_step (env w) (env_state (env w)) a))"
  shows "step_loop w (a # rest) = inner_step w a"
proof -
  have "latched (inner_step w a)"
    using assms(2) by (simp add: latched_def inner_step_dones)
  then have "step_loop (inner_step w a) rest = inner_step w a" by (rule step_loop_latched)
  with assms(1) show ?thesis by simp
qed

lemma step_recorded:
  "take (length (dones (buf w))) (dones (buf (fst (step w action)))) = dones (buf w) \<and>
   step_calls (env (fst (step w action))) =
     step_calls (env w) + length (recorded w (fst (step w action))) \<and>
   (\<forall>d\<in>set (butlast (recorded w (fst (step w action)))). \<not> d)"
proof (cases "int (length action) = n_action w")
  case True
  then have s: "fst (step w action) = step_loop w action" by (simp add: fst_step)
  obtain new where new: "dones (buf (step_loop w action)) = dones (buf w) @ new"
      "step_calls (env (step_loop w action)) = step_calls (env w) + length new"
      "\<forall>d\<in>set (butlast new). \<not> d"
    using step_loop_trace [of w action] by (elim exE conjE)
  show ?thesis unfolding s recorded_def new(1) using new(2,3) by simp
next
  case False
  then show ?thesis by (simp add: fst_step recorded_def)
qed

text \<open>
  Claim C7. On a wrapper with \<open>n_action = 3\<close> that has just been reset, over an
  environment whose first inner step reports termination (\<open>terminated or truncated\<close>),
  a macro-step with three actions calls the environment's \<open>step\<close> exactly once and
  leaves \<open>rewards\<close> with one entry. In general a macro-step keeps the flags already
  recorded, calls the environment once for every flag it records, and every flag it
  records but the last is false: no inner step runs after one whose flag is true.
\<close>

theorem early_termination_short_circuit:
  "(- 1 \<le> n_obs w \<and> n_action w = 3 \<and> w1 = fst (reset w kw) \<and>
    reports_done (fst (env_step (env w1) (env_state (env w1)) a1)) \<longrightarrow>
      step_calls (env (fst (step w1 [a1, a2, a3]))) = Suc (step_calls (env w1)) \<and>
      length (rewards (buf (fst (step w1 [a1, a2, a3])))) = 1) \<and>
   (take (length (dones (buf v))) (dones (buf (fst (step v action)))) = dones (buf v) \<and>
    step_calls (env (fst (step v action))) =
      step_calls (env v) + length (recorded v (fst (step v action))) \<and>
    (\<forall>d\<in>set (butlast (recorded v (fst (step v action)))). \<not> d))"
proof (rule conjI)
  show "- 1 \<le> n_obs w \<and> n_action w = 3 \<and> w1 = fst (reset w kw) \<and>
    reports_done (fst (env_step (env w1) (env_state (env w1)) a1)) \<longrightarrow>
      step_calls (env (fst (step w1 [a1, a2, a3]))) = Suc (step_calls (env w1)) \<and>
      length (rewards (buf (fst (step w1 [a1, a2, a3])))) = 1"
  proof (intro impI conjI)
    assume h: "- 1 \<le> n_obs w \<and> n_action w = 3 \<and> w1 = fst (reset w kw) \<and>
      reports_done (fst (env_step (env w1) (env_state (env w1)) a1))"
    then have fresh: "dones (buf w1) = []" "rewards (buf w1) = []" "n_action w1 = 3"
      using reset_fresh [of w kw] by simp_all
    from h have d: "reports_done (fst (env_step (env w1) (env_state (env w1)) a1))" by blast
    have s: "fst (step w1 [a1, a2, a3]) = inner_step w1 a1"
      using fresh(3) step_loop_stops_at_done [OF fresh(1) d]
      by (simp add: fst_step del: step_loop.simps)
    obtain r where r: "rewards (buf (inner_step w1 a1)) = rewards (buf w1) @ [r]"
      using inner_step_rewards [of w1 a1] by (elim exE)
    show "step_calls (env (fst (step w1 [a1, a2, a3]))) = Suc (step_calls (env w1))"
      unfolding s by (rule inner_step_calls)
    show "length (rewards (buf (fst (step w1 [a1, a2, a3])))) = 1"
      unfolding s r fresh(2) by simp
  qed
  show "take (length (dones (buf v))) (dones (buf (fst (step v action)))) = dones (buf v) \<and>
    step_calls (env (fst (step v action))) =
      step_calls (env v) + length (recorded v (fst (step v action))) \<and>
    (\<forall>d\<in>set (butlast (recorded v (fst (step v action)))). \<not> d)"
    by (rule step_recorded)
qed

section \<open>What a macro-step returns\<close>

text \<open>
  \<open>_stack_obs\<close> slices the deque \<open>buf.obs\<close>, so it raises \<open>TypeError\<close> on
  every instance (\<open>stack_obs_TypeError\<close>), and with it \<open>reset\<close> and every
  macro-step that passes its assertion and its reduction. The lemmas below say what
  the loop and the reduction have done by then.
\<close>

lemma step_TypeError:
  assumes "int (length action) = n_action w"
    and "reduce (buf (step_loop w action)) (reward_reduce w) = Inr rd"
  shows "step w action = (step_loop w action, Inl TypeError)"
  using assms
  by (simp add: step_eq Let_def step_loop_params stack_obs_TypeError split: prod.splits)

lemma step_loop_keeps_rewards:
  "\<exists>new. rewards (buf (step_loop w action)) = rewards (buf w) @ new"
proof (induction w action rule: step_loop.induct)
  case (1 w)
  show ?case by simp
next
  case (2 w a rest)
  show ?case
  proof (cases "dones (buf w) \<noteq> [] \<and> last (dones (buf w))")
    case True
    then show ?thesis by simp
  next
    case False
    obtain r where r: "rewards (buf (inner_step w a)) = rewards (buf w) @ [r]"
      using inner_step_rewards [of w a] by (elim exE)
    obtain new where "rewards (buf (step_loop (inner_step w a) rest)) =
        rewards (buf (inner_step w a)) @ new"
      using "2.IH" [OF False] by (elim exE)
    with r False show ?thesis by auto
  qed
qed

lemma step_keeps_rewards:
  "take (length (rewards (buf w))) (rewards (buf (fst (step w action)))) = rewards (buf w)"
proof -
  obtain new where "rewards (buf (step_loop w action)) = rewards (buf w) @ new"
    using step_loop_keeps_rewards [of w action] by (elim exE)
  then show ?thesis by (simp add: fst_step)
qed

lemma step_latched: "latched w \<Longrightarrow> fst (step w action) = w"
  by (simp add: fst_step step_loop_latched)

lemma reduce_latched:
  assumes "latched w" and "length (rewards (buf w)) = length (dones (buf w))"
    and "reward_reduce w \<in> {''max'', ''min'', ''mean'', ''sum''}"
  shows "\<exists>r. reduce (buf w) (reward_reduce w) = Inr (r, True)"
proof -
  from assms(1) have d: "dones (buf w) \<noteq> []" and l: "last (dones (buf w))"
    by (simp_all add: latched_def)
  from d l have "\<exists>x\<in>set (dones (buf w)). x" using last_in_set by blast
  with d have m: "np_max (dones (buf w)) = Inr True" by (simp add: np_max_bool)
  from d assms(2) have r: "rewards (buf w) \<noteq> []" by auto
  then obtain x xs where xs: "rewards (buf w) = x # xs" by (cases "rewards (buf w)") auto
  from assms(3) show ?thesis
    by (auto simp: reduce_def agg_fn_map_def m xs np_mean_def)
qed

lemma inner_step_env_step: "env_step (env (inner_step w a)) = env_step (env w)"
  by (simp add: inner_step_def call_step_def Let_def split: prod.splits)

lemma step_loop_never_done:
  assumes "\<forall>s a. \<not> reports_done (fst (env_step (env w) s a))"
    and "\<forall>d\<in>set (dones (buf w)). \<not> d"
  shows "length (rewards (buf (step_loop w action))) = length (rewards (buf w)) + length action \<and>
         (\<forall>d\<in>set (dones (buf (step_loop w action))). \<not> d) \<and>
         env_step (env (step_loop w action)) = env_step (env w)"
  using assms
proof (induction action arbitrary: w)
  case Nil
  then show ?case by simp
next
  case (Cons a rest)
  let ?w1 = "inner_step w a"
  have open_loop: "\<not> (dones (buf w) \<noteq> [] \<and> last (dones (buf w)))"
    using Cons.prems(2) last_in_set by blast
  have e: "env_step (env ?w1) = env_step (env w)" by (rule inner_step_env_step)
  have nd: "\<forall>s a. \<not> reports_done (fst (env_step (env ?w1) s a))"
    unfolding e by (rule Cons.prems(1))
  have fl: "\<forall>d\<in>set (dones (buf ?w1)). \<not> d"
    using Cons.prems by (simp add: inner_step_dones)
  obtain r where r: "rewards (buf ?w1) = rewards (buf w) @ [r]"
    using inner_step_rewards [of w a] by (elim exE)
  have unfold: "step_loop w (a # rest) = step_loop ?w1 rest"
    using open_loop by auto
  from Cons.IH [OF nd fl] show ?case
    unfolding unfold r e by auto
qed

text \<open>The definitions unfolded to run the example wrapper.\<close>

lemmas demo_eval =
  run_def fst_step reset_def call_reset_def StepBuffers_init_def new_deque_def add_obs_def
  dq_append_def inner_step_def call_step_def add_reward_def add_done_def add_info_def
  demo_wrapper_def demo_env_def Let_def

lemma call_step_result:
  "fst (call_step e a) = fst (env_step e (env_state e) a)"
  by (simp add: call_step_def split: prod.splits)

lemma inner_step_env: "env (inner_step w a) = snd (call_step (env w) a)"
  by (simp add: inner_step_def Let_def split: prod.splits)

lemma inner_step_reward:
  "rewards (buf (inner_step w a)) = rewards (buf w) @ [reward_of (fst (call_step (env w) a))]"
  by (simp add: inner_step_def Let_def add_info_fields add_done_def add_reward_def add_obs_def
      reward_of_def split: prod.splits)

lemma env_trace_Cons:
  "env_trace e (a # rest) =
     fst (call_step e a) #
       (if reports_done (fst (call_step e a)) then [] else env_trace (snd (call_step e a)) rest)"
  by (simp add: Let_def split: prod.splits)

lemma step_loop_rewards:
  "\<not> latched w \<Longrightarrow>
     rewards (buf (step_loop w action)) = rewards (buf w) @ map reward_of (env_trace (env w) action)"
proof (induction action arbitrary: w)
  case Nil
  show ?case by simp
next
  case (Cons a rest)
  let ?w1 = "inner_step w a"
  let ?r = "fst (call_step (env w) a)"
  from Cons.prems have unfold: "step_loop w (a # rest) = step_loop ?w1 rest"
    by (auto simp: latched_def)
  have d: "dones (buf ?w1) = dones (buf w) @ [reports_done ?r]"
    by (simp add: inner_step_dones call_step_result)
  show ?case
  proof (cases "reports_done ?r")
    case True
    then have "latched ?w1" by (simp add: latched_def d)
    then have "step_loop ?w1 rest = ?w1" by (rule step_loop_latched)
    with True show ?thesis
      unfolding unfold env_trace_Cons by (simp add: inner_step_reward)
  next
    case False
    then have "\<not> latched ?w1" by (simp add: latched_def d)
    from Cons.IH [OF this] False show ?thesis
      unfolding unfold env_trace_Cons by (simp add: inner_step_reward inner_step_env)
  qed
qed

lemma step_rewards:
  "rewards (buf (fst (step w action))) = rewards (buf w) @ inner_rewards w action"
proof (cases "int (length action) \<noteq> n_action w \<or> latched w")
  case True
  then show ?thesis by (auto simp: fst_step inner_rewards_def step_loop_latched)
next
  case False
  then show ?thesis by (simp add: fst_step inner_rewards_def step_loop_rewards)
qed

lemma step_reduced_loop:
  "int (length action) = n_action w \<Longrightarrow>
     step_reduced w action =
       (step_loop w action,
        case reduce (buf (step_loop w action)) (reward_reduce w) of
          Inl e \<Rightarrow> Inl e
        | Inr (r_red, d_red) \<Rightarrow>
            Inr (r_red, if ceiling_reached (step_loop w action) then True else d_red))"
  by (simp add: step_reduced_def Let_def step_loop_params split: sum.splits prod.splits)

lemma step_loop_parallel:
  "length (dones (buf w)) = length (rewards (buf w)) \<Longrightarrow>
     length (dones (buf (step_loop w action))) = length (rewards (buf (step_loop w action)))"
proof -
  assume l: "length (dones (buf w)) = length (rewards (buf w))"
  obtain new where "dones (buf (step_loop w action)) = dones (buf w) @ new"
      "length (rewards (buf (step_loop w action))) = length (rewards (buf w)) + length new"
    using step_loop_trace [of w action] by (elim exE conjE)
  with l show ?thesis by simp
qed

lemma reduce_values:
  "rewards b \<noteq> [] \<Longrightarrow> length (dones b) = length (rewards b) \<Longrightarrow>
     reduce b ''max'' = Inr (Float (Max (set (rewards b))), \<exists>d\<in>set (dones b). d) \<and>
     reduce b ''min'' = Inr (Float (Min (set (rewards b))), \<exists>d\<in>set (dones b). d) \<and>
     reduce b ''mean'' =
       Inr (Float (sum_list (rewards b) / real (length (rewards b))), \<exists>d\<in>set (dones b). d) \<and>
     reduce b ''sum'' = Inr (Float (sum_list (rewards b)), \<exists>d\<in>set (dones b). d)"
proof -
  assume r: "rewards b \<noteq> []" and l: "length (dones b) = length (rewards b)"
  from r l have d: "dones b \<noteq> []" by auto
  show ?thesis
    using r d
    by (simp add: reduce_def agg_fn_map_def np_max_Max np_min_Min np_max_bool
        np_mean_def np_sum_sum_list)
qed

text \<open>
  Claim C1, amended. \<open>rewards\<close> is cleared by \<open>reset\<close> only, not at the start of a
  macro-step. A macro-step appends to it the rewards the environment returns for the
  inner steps it executes, and the aggregated reward it computes is the chosen
  reduction (max, min, mean or sum) applied to the whole sequence: the rewards of all
  the inner steps since the last reset, those of earlier macro-steps included.
\<close>

theorem macro_step_reduces_all_rewards:
  "(- 1 \<le> n_obs w \<longrightarrow> rewards (buf (fst (reset w kw))) = []) \<and>
   rewards (buf (fst (step w action))) = rewards (buf w) @ inner_rewards w action \<and>
   (int (length action) = n_action w \<and> length (dones (buf w)) = length (rewards (buf w)) \<and>
    rewards (buf w) @ inner_rewards w action \<noteq> [] \<longrightarrow>
      (reward_reduce w = ''max'' \<longrightarrow>
         (\<exists>d. snd (step_reduced w action) =
            Inr (Float (Max (set (rewards (buf w) @ inner_rewards w action))), d))) \<and>
      (reward_reduce w = ''min'' \<longrightarrow>
         (\<exists>d. snd (step_reduced w action) =
            Inr (Float (Min (set (rewards (buf w) @ inner_rewards w action))), d))) \<and>
      (reward_reduce w = ''mean'' \<longrightarrow>
         (\<exists>d. snd (step_reduced w action) =
            Inr (Float (sum_list (rewards (buf w) @ inner_rewards w action) /
                        real (length (rewards (buf w) @ inner_rewards w action))), d))) \<and>
      (reward_reduce w = ''sum'' \<longrightarrow>
         (\<exists>d. snd (step_reduced w action) =
            Inr (Float (sum_list (rewards (buf w) @ inner_rewards w action)), d))))"
proof (intro conjI impI)
  assume "- 1 \<le> n_obs w"
  then show "rewards (buf (fst (reset w kw))) = []"
    using reset_fresh [of w kw] by simp
next
  show "rewards (buf (fst (step w action))) = rewards (buf w) @ inner_rewards w action"
    by (rule step_rewards)
next
  assume h: "int (length action) = n_action w \<and>
    length (dones (buf w)) = length (rewards (buf w)) \<and>
    rewards (buf w) @ inner_rewards w action \<noteq> []"
  let ?b = "buf (step_loop w action)"
  from h have all: "rewards ?b = rewards (buf w) @ inner_rewards w action"
    using step_rewards [of w action] by (simp add: fst_step)
  with h have ne: "rewards ?b \<noteq> []" by simp
  from h have par: "length (dones ?b) = length (rewards ?b)"
    by (simp add: step_loop_parallel)
  note v = reduce_values [OF ne par, unfolded all]
  from h have red: "snd (step_reduced w action) =
      (case reduce ?b (reward_reduce w) of
         Inl e \<Rightarrow> Inl e
       | Inr (r_red, d_red) \<Rightarrow>
           Inr (r_red, if ceiling_reached (step_loop w action) then True else d_red))"
    by (simp add: step_reduced_loop)
  { assume "reward_reduce w = ''max''"
    with v show "\<exists>d. snd (step_reduced w action) =
        Inr (Float (Max (set (rewards (buf w) @ inner_rewards w action))), d)"
      unfolding red by simp }
  { assume "reward_reduce w = ''min''"
    with v show "\<exists>d. snd (step_reduced w action) =
        Inr (Float (Min (set (rewards (buf w) @ inner_rewards w action))), d)"
      unfolding red by simp }
  { assume "reward_reduce w = ''mean''"
    with v show "\<exists>d. snd (step_reduced w action) =
        Inr (Float (sum_list (rewards (buf w) @ inner_rewards w action) /
                    real (length (rewards (buf w) @ inner_rewards w action))), d)"
      unfolding red by simp }
  { assume "reward_reduce w = ''sum''"
    with v show "\<exists>d. snd (step_reduced w action) =
        Inr (Float (sum_list (rewards (buf w) @ inner_rewards w action)), d)"
      unfolding red by simp }
qed

text \<open>
  The second macro-step of an episode of the example wrapper in mode sum: it starts with
  the reward \<open>[1]\<close> of the first, appends its own reward 1 and computes the sum 2 of
  both; a reset after it leaves no reward.
\<close>

theorem macro_step_reduces_all_rewards_witness:
  "- 1 \<le> n_obs (run (demo_wrapper False 1 ''sum'' None) [Reset (), MacroStep [()]]) \<and>
   int (length [()]) = n_action (run (demo_wrapper False 1 ''sum'' None) [Reset (), MacroStep [()]]) \<and>
   reward_reduce (run (demo_wrapper False 1 ''sum'' None) [Reset (), MacroStep [()]]) = ''sum'' \<and>
   dones (buf (run (demo_wrapper False 1 ''sum'' None) [Reset (), MacroStep [()]])) = [False] \<and>
   rewards (buf (run (demo_wrapper False 1 ''sum'' None) [Reset (), MacroStep [()]])) = [1] \<and>
   inner_rewards (run (demo_wrapper False 1 ''sum'' None) [Reset (), MacroStep [()]]) [()] = [1] \<and>
   rewards (buf (fst (step
     (run (demo_wrapper False 1 ''sum'' None) [Reset (), MacroStep [()]]) [()]))) = [1, 1] \<and>
   snd (step_reduced
     (run (demo_wrapper False 1 ''sum'' None) [Reset (), MacroStep [()]]) [()]) =
     Inr (Float 2, False) \<and>
   rewards (buf (fst (reset
     (run (demo_wrapper False 1 ''sum'' None) [Reset (), MacroStep [()]]) ()))) = []"
proof -
  let ?w = "run (demo_wrapper False 1 ''sum'' None) [Reset (), MacroStep [()]]"
  have p: "- 1 \<le> n_obs ?w" "int (length [()]) = n_action ?w" "reward_reduce ?w = ''sum''"
    by (simp_all add: demo_eval)
  have d: "dones (buf ?w) = [False]" by (simp add: demo_eval)
  have r: "rewards (buf ?w) = [1]" by (simp add: demo_eval)
  have i: "inner_rewards ?w [()] = [1]"
    using p(2) by (simp add: inner_rewards_def latched_def d reward_of_def call_step_def
        demo_eval split: prod.splits)
  have l: "step_loop ?w [()] = fst (step ?w [()])" using p(2) by (simp add: fst_step)
  have d2: "dones (buf (fst (step ?w [()]))) = [False, False]" by (simp add: demo_eval)
  have c: "\<not> ceiling_reached (fst (step ?w [()]))" by (simp add: ceiling_reached_def demo_eval)
  note t = macro_step_reduces_all_rewards [of ?w "()" "[()]", unfolded r i]
  from t have after: "rewards (buf (fst (step ?w [()]))) = [1, 1]" by simp
  have red: "snd (step_reduced ?w [()]) = Inr (Float 2, False)"
    using p(2,3) c unfolding step_reduced_loop [OF p(2)] l
    by (simp add: reduce_def after d2 agg_fn_map_def np_sum_def)
  from t p have "rewards (buf (fst (reset ?w ()))) = []" by simp
  with p d r i after red show ?thesis by simp
qed

text \<open>
  Claim C1 as stated fails. With \<open>n_action = 1\<close>, mode sum and an environment that
  pays 1 at every step, the second macro-step of an episode reduces the rewards
  \<open>[1, 1]\<close> of both macro-steps to 2, not its own reward \<open>[1]\<close> to 1.
\<close>

theorem macro_step_reduces_whole_episode:
  "rewards (buf (run (demo_wrapper False 1 ''sum'' None) [Reset (), MacroStep [()]])) = [1] \<and>
   rewards (buf (run (demo_wrapper False 1 ''sum'' None)
     [Reset (), MacroStep [()], MacroStep [()]])) = [1, 1] \<and>
   reduce (buf (run (demo_wrapper False 1 ''sum'' None)
     [Reset (), MacroStep [()], MacroStep [()]])) ''sum'' = Inr (Float 2, False)"
proof -
  have b1: "rewards (buf (run (demo_wrapper False 1 ''sum'' None) [Reset (), MacroStep [()]])) = [1]"
    by (simp add: demo_eval)
  have b2: "rewards (buf (run (demo_wrapper False 1 ''sum'' None)
     [Reset (), MacroStep [()], MacroStep [()]])) = [1, 1]"
    by (simp add: demo_eval)
  have d2: "dones (buf (run (demo_wrapper False 1 ''sum'' None)
     [Reset (), MacroStep [()], MacroStep [()]])) = [False, False]"
    by (simp add: demo_eval)
  have r: "reduce (buf (run (demo_wrapper False 1 ''sum'' None)
     [Reset (), MacroStep [()], MacroStep [()]])) ''sum'' = Inr (Float 2, False)"
    unfolding reduce_def b2 d2 by (simp add: agg_fn_map_def np_sum_def)
  from b1 b2 r show ?thesis by simp
qed

text \<open>
  Claim C3 does not hold of the code. With \<open>max_episode_steps = 2\<close>,
  \<open>n_action = 1\<close> and an environment that never terminates, the ceiling test is
  false after the first macro-step and true after the second, as the claim has it
  (\<open>step_loop_never_done\<close> gives the count in general), but neither call returns a
  \<open>done\<close> flag: both raise \<open>TypeError\<close>.
\<close>

theorem ceiling_step_raises:
  "length (rewards (buf (run (demo_wrapper False 1 ''max'' (Some 2)) [Reset (), MacroStep [()]]))) = 1 \<and>
   \<not> ceiling_reached (run (demo_wrapper False 1 ''max'' (Some 2)) [Reset (), MacroStep [()]]) \<and>
   snd (step (run (demo_wrapper False 1 ''max'' (Some 2)) [Reset ()]) [()]) = Inl TypeError \<and>
   length (rewards (buf (run (demo_wrapper False 1 ''max'' (Some 2))
     [Reset (), MacroStep [()], MacroStep [()]]))) = 2 \<and>
   ceiling_reached (run (demo_wrapper False 1 ''max'' (Some 2))
     [Reset (), MacroStep [()], MacroStep [()]]) \<and>
   snd (step (run (demo_wrapper False 1 ''max'' (Some 2)) [Reset (), MacroStep [()]]) [()]) =
     Inl TypeError"
proof -
  have a: "length (rewards (buf (run (demo_wrapper False 1 ''max'' (Some 2)) [Reset (), MacroStep [()]]))) = 1"
    by (simp add: demo_eval)
  have b: "\<not> ceiling_reached (run (demo_wrapper False 1 ''max'' (Some 2)) [Reset (), MacroStep [()]])"
    by (simp add: ceiling_reached_def demo_eval)
  have c: "snd (step (run (demo_wrapper False 1 ''max'' (Some 2)) [Reset ()]) [()]) = Inl TypeError"
    by (simp add: step_eq reduce_def agg_fn_map_def stack_obs_def demo_eval)
  have d: "length (rewards (buf (run (demo_wrapper False 1 ''max'' (Some 2))
     [Reset (), MacroStep [()], MacroStep [()]]))) = 2"
    by (simp add: demo_eval)
  have e: "ceiling_reached (run (demo_wrapper False 1 ''max'' (Some 2))
     [Reset (), MacroStep [()], MacroStep [()]])"
    by (simp add: ceiling_reached_def demo_eval)
  have f: "snd (step (run (demo_wrapper False 1 ''max'' (Some 2)) [Reset (), MacroStep [()]]) [()]) =
     Inl TypeError"
    by (simp add: step_eq reduce_def agg_fn_map_def stack_obs_def demo_eval)
  from a b c d e f show ?thesis by simp
qed

text \<open>
  Claim C10 does not hold of the code. Once a true flag is recorded, a further macro-step
  leaves the instance unchanged, so it does not call the environment, and its reduction
  gives \<open>done = True\<close> (\<open>step_latched\<close>, \<open>reduce_latched\<close>); but the call does
  not return it: it raises \<open>TypeError\<close>.
\<close>

theorem latched_step_raises:
  "dones (buf (run (demo_wrapper True 1 ''max'' None) [Reset (), MacroStep [()]])) = [True] \<and>
   reduce (buf (run (demo_wrapper True 1 ''max'' None) [Reset (), MacroStep [()]])) ''max'' =
     Inr (Float 1, True) \<and>
   step (run (demo_wrapper True 1 ''max'' None) [Reset (), MacroStep [()]]) [()] =
     (run (demo_wrapper True 1 ''max'' None) [Reset (), MacroStep [()]], Inl TypeError)"
proof -
  let ?w = "run (demo_wrapper True 1 ''max'' None) [Reset (), MacroStep [()]]"
  have d: "dones (buf ?w) = [True]" by (simp add: demo_eval)
  have r: "rewards (buf ?w) = [1]" by (simp add: demo_eval)
  have p: "reward_reduce ?w = ''max''" "n_action ?w = 1" by (simp_all add: demo_eval)
  have red: "reduce (buf ?w) ''max'' = Inr (Float 1, True)"
    unfolding reduce_def d r by (simp add: agg_fn_map_def)
  have l: "latched ?w" unfolding latched_def d by simp
  then have loop: "step_loop ?w [()] = ?w" by (rule step_loop_latched)
  have "step ?w [()] = (step_loop ?w [()], Inl TypeError)"
    by (rule step_TypeError [where rd = "(Float 1, True)"]) (simp_all only: p loop red, simp)
  with d red loop show ?thesis by simp
qed

text \<open>
  Instances of the early termination: the example environment that terminates at once,
  wrapped with \<open>n_action = 3\<close>, is called once; the one that never terminates is
  called three times and records three false flags.
\<close>

theorem early_termination_short_circuit_witness:
  "- 1 \<le> n_obs (demo_wrapper True 3 ''max'' None) \<and>
   n_action (demo_wrapper True 3 ''max'' None) = 3 \<and>
   reports_done (fst (env_step (env (fst (reset (demo_wrapper True 3 ''max'' None) ())))
     (env_state (env (fst (reset (demo_wrapper True 3 ''max'' None) ())))) ())) \<and>
   step_calls (env (fst (reset (demo_wrapper True 3 ''max'' None) ()))) = 0 \<and>
   step_calls (env (fst (step (fst (reset (demo_wrapper True 3 ''max'' None) ())) [(), (), ()]))) = 1 \<and>
   length (rewards (buf (fst (step (fst (reset (demo_wrapper True 3 ''max'' None) ())) [(), (), ()])))) = 1 \<and>
   recorded (fst (reset (demo_wrapper False 3 ''max'' None) ()))
     (fst (step (fst (reset (demo_wrapper False 3 ''max'' None) ())) [(), (), ()])) =
     [False, False, False] \<and>
   step_calls (env (fst (step (fst (reset (demo_wrapper False 3 ''max'' None) ())) [(), (), ()]))) = 3"
proof -
  let ?w = "demo_wrapper True 3 ''max'' None"
  let ?w1 = "fst (reset ?w ())"
  let ?v = "fst (reset (demo_wrapper False 3 ''max'' None) ())"
  have n: "- 1 \<le> n_obs ?w" "n_action ?w = 3" by (simp_all add: demo_wrapper_def)
  have e: "env_step (env ?w1) = env_step (demo_env True)" "step_calls (env ?w1) = 0"
    by (simp_all add: reset_def call_reset_def StepBuffers_init_def new_deque_def Let_def
        demo_wrapper_def demo_env_def split: prod.splits)
  have d: "reports_done (fst (env_step (env ?w1) (env_state (env ?w1)) ()))"
    unfolding e by (simp add: demo_env_def reports_done_def)
  have r: "recorded ?v (fst (step ?v [(), (), ()])) = [False, False, False]"
    by (simp add: recorded_def demo_eval)
  have c: "step_calls (env ?v) = 0" by (simp add: demo_eval)
  from n d e(2) r c show ?thesis
    using early_termination_short_circuit [of ?w ?w1 "()" "()" "()" "()" ?v "[(), (), ()]"]
    by simp
qed

end
